theory Spec2Isabelle
  imports Main "HOL-Library.List_Lexorder"
begin

text \<open>
  A model of \<open>server.js\<close>, the back end of a note store: the content parser
  (\<open>extractLinks\<close>, \<open>extractTags\<close>), the SQLite tables with their constraints and
  triggers, \<open>upsertNote\<close> and the routes that create, update and delete a note, and the
  part of the chat route that assembles the context notes. The routes are functions
  from a database to an answer and a database; an exception is a value.
\<close>

section \<open>Text\<close>

text \<open>
  A JavaScript string is modelled as the list of its code points (a surrogate pair read
  as one code point, a lone surrogate as itself). \<open>WIKILINK_RE\<close> has no \<open>u\<close> flag and
  works on UTF-16 code units, but every character it tests for (\<open>[\<close>, \<open>]\<close>, \<open>|\<close>,
  \<open>#\<close>, the line terminators) and every character \<open>trim\<close> removes lies in the basic
  plane, so the two halves of a pair are always matched together and the substrings
  found are the same. \<open>TAG_RE\<close> has the \<open>u\<close> flag and works on code points.
\<close>

type_synonym jstring = "nat list"

abbreviation js :: "string \<Rightarrow> jstring" where
  "js s \<equiv> map of_char s"

text \<open>ECMAScript LineTerminator: LF, CR, U+2028, U+2029. The regular expression
  atom \<open>.\<close> (without the \<open>s\<close> flag) matches everything else.\<close>

definition line_terminator :: "nat \<Rightarrow> bool" where
  "line_terminator c = (c = 10 \<or> c = 13 \<or> c = 8232 \<or> c = 8233)"

text \<open>ECMAScript WhiteSpace and LineTerminator: what \<open>String.prototype.trim\<close> removes
  and what \<open>\s\<close> matches (TAB, VT, FF, SP, NBSP, U+1680, U+2000..U+200A, U+202F, U+205F,
  U+3000, U+FEFF and the line terminators).\<close>

definition js_space :: "nat \<Rightarrow> bool" where
  "js_space c =
     (c = 9 \<or> c = 11 \<or> c = 12 \<or> c = 32 \<or> c = 160 \<or> c = 5760 \<or>
      (8192 \<le> c \<and> c \<le> 8202) \<or> c = 8239 \<or> c = 8287 \<or> c = 12288 \<or> c = 65279 \<or>
      line_terminator c)"

definition trim :: "jstring \<Rightarrow> jstring" where
  "trim s = rev (dropWhile js_space (rev (dropWhile js_space s)))"

section \<open>Content parser\<close>

subsection \<open>WIKILINK\_RE\<close>

text \<open>
  \<^verbatim>\<open>const WIKILINK_RE = /\[\[([^\]|#]+)(?:#.*?)?\]\]/g;\<close>

  The matcher is written as the backtracking search the regular expression engine
  performs, one function per piece of the pattern; each returns the rest of the input
  after the whole match, or \<open>None\<close> when every alternative has failed.
\<close>

text \<open>\<open>[^\]|#]\<close>: any character but \<open>]\<close> (93), \<open>|\<close> (124) and \<open>#\<close> (35).\<close>

definition title_char :: "nat \<Rightarrow> bool" where
  "title_char c = (c \<noteq> 93 \<and> c \<noteq> 124 \<and> c \<noteq> 35)"

text \<open>\<open>\]\]\<close> at the end of the pattern.\<close>

fun close_brackets :: "jstring \<Rightarrow> jstring option" where
  "close_brackets (a # b # r) = (if a = 93 \<and> b = 93 then Some r else None)"
| "close_brackets _ = None"

text \<open>\<open>.*?\]\]\<close>: the lazy star tries the rest of the pattern first and takes one more
  character (not a line terminator) only when that fails.\<close>

fun lazy_any_close :: "jstring \<Rightarrow> jstring option" where
  "lazy_any_close [] = close_brackets []"
| "lazy_any_close (c # cs) =
     (case close_brackets (c # cs) of
        Some r \<Rightarrow> Some r
      | None \<Rightarrow> if line_terminator c then None else lazy_any_close cs)"

text \<open>\<open>(?:#.*?)?\]\]\<close>: the optional group is greedy, so it is tried first and skipped
  when the match cannot be completed with it.\<close>

definition heading_close :: "jstring \<Rightarrow> jstring option" where
  "heading_close s =
     (case (case s of c # cs \<Rightarrow> if c = 35 then lazy_any_close cs else None | [] \<Rightarrow> None) of
        Some r \<Rightarrow> Some r
      | None \<Rightarrow> close_brackets s)"

text \<open>The rest of \<open>[^\]|#]+\<close> after its first character: greedy, so one more character
  is taken first, and given back when the rest of the pattern fails after it.
  \<open>acc\<close> is capture group 1 so far.\<close>

fun title_more :: "jstring \<Rightarrow> jstring \<Rightarrow> (jstring \<times> jstring) option" where
  "title_more acc [] = map_option (Pair acc) (heading_close [])"
| "title_more acc (c # cs) =
     (case (if title_char c then title_more (acc @ [c]) cs else None) of
        Some r \<Rightarrow> Some r
      | None \<Rightarrow> map_option (Pair acc) (heading_close (c # cs)))"

text \<open>One attempt of the whole pattern at the head of the input: capture group 1 and
  the input after the match.\<close>

fun wikilink_at :: "jstring \<Rightarrow> (jstring \<times> jstring) option" where
  "wikilink_at (a # b # c # cs) =
     (if a = 91 \<and> b = 91 \<and> title_char c then title_more [c] cs else None)"
| "wikilink_at _ = None"

lemma close_brackets_shorter: "close_brackets s = Some r \<Longrightarrow> length r < length s"
  by (induction s rule: close_brackets.induct) (auto split: if_splits)

lemma lazy_any_close_shorter: "lazy_any_close s = Some r \<Longrightarrow> length r < length s"
  by (induction s rule: lazy_any_close.induct)
     (auto split: option.splits if_splits dest: close_brackets_shorter)

lemma heading_close_shorter: "heading_close s = Some r \<Longrightarrow> length r < length s"
  by (auto simp: heading_close_def split: option.splits list.splits if_splits
           dest: close_brackets_shorter lazy_any_close_shorter)

lemma title_more_shorter: "title_more acc s = Some (t, r) \<Longrightarrow> length r < length s"
proof (induction acc s rule: title_more.induct)
  case (1 acc)
  then show ?case by (auto dest: heading_close_shorter)
next
  case (2 acc c cs)
  then show ?case
    by (fastforce split: option.splits if_splits dest: heading_close_shorter)
qed

lemma wikilink_at_shorter: "wikilink_at s = Some (t, r) \<Longrightarrow> length r < length s"
  by (induction s rule: wikilink_at.induct)
     (auto split: if_splits dest: title_more_shorter)

text \<open>\<open>content.matchAll(WIKILINK_RE)\<close>: the pattern is tried at each index from left
  to right; after a match (never empty) the search goes on where the match ended, after
  a failure one character further. The result lists capture group 1 of every match.\<close>

function wikilink_matches :: "jstring \<Rightarrow> jstring list" where
  "wikilink_matches s =
     (case wikilink_at s of
        Some (t, r) \<Rightarrow> t # wikilink_matches r
      | None \<Rightarrow> (case s of [] \<Rightarrow> [] | c # cs \<Rightarrow> wikilink_matches cs))"
  by pat_completeness auto
termination
  by (relation "measure length") (auto dest: wikilink_at_shorter)

declare wikilink_matches.simps [simp del]

text \<open>\<open>Set.prototype.add\<close> and \<open>[...set]\<close>: a JavaScript \<open>Set\<close> keeps its elements in
  the order of their first insertion.\<close>

definition set_add :: "'a list \<Rightarrow> 'a \<Rightarrow> 'a list" where
  "set_add xs x = (if x \<in> set xs then xs else xs @ [x])"

text \<open>
  \<^verbatim>\<open>
  function extractLinks(content) {
    const targets = new Set();
    for (const m of content.matchAll(WIKILINK_RE)) {
      const t = m[1].trim();
      if (t) targets.add(t);
    }
    return [...targets];
  }
  \<close>
\<close>

definition extractLinks :: "jstring \<Rightarrow> jstring list" where
  "extractLinks content =
     foldl (\<lambda>targets m. let t = trim m in if t \<noteq> [] then set_add targets t else targets)
       [] (wikilink_matches content)"

subsection \<open>TAG\_RE\<close>

text \<open>
  \<^verbatim>\<open>const TAG_RE = /(^|\s)#([\p{L}0-9_\-\/]+)\b/gu;\<close>

  The Unicode table of the general category Letter (\<open>\p{L}\<close>) is not part of the
  program; it is the parameter \<open>L\<close> of the functions below.
\<close>

text \<open>\<open>[\p{L}0-9_\-\/]\<close>: a letter, a digit, \<open>_\<close> (95), \<open>-\<close> (45) or \<open>/\<close> (47).\<close>

definition tag_char :: "(nat \<Rightarrow> bool) \<Rightarrow> nat \<Rightarrow> bool" where
  "tag_char L c = (L c \<or> (48 \<le> c \<and> c \<le> 57) \<or> c = 95 \<or> c = 45 \<or> c = 47)"

text \<open>\<open>\w\<close>, which decides \<open>\b\<close>: with the \<open>u\<close> flag and without the \<open>i\<close> flag it is
  \<open>[A-Za-z0-9_]\<close>.\<close>

definition word_char :: "nat \<Rightarrow> bool" where
  "word_char c = ((65 \<le> c \<and> c \<le> 90) \<or> (97 \<le> c \<and> c \<le> 122) \<or> (48 \<le> c \<and> c \<le> 57) \<or> c = 95)"

text \<open>\<open>\b\<close> between the character \<open>a\<close> just matched and the rest of the input: exactly
  one side is a word character (the end of the input is not one).\<close>

definition word_boundary :: "nat \<Rightarrow> jstring \<Rightarrow> bool" where
  "word_boundary a s = (word_char a \<noteq> (case s of [] \<Rightarrow> False | c # _ \<Rightarrow> word_char c))"

text \<open>The rest of \<open>[\p{L}0-9_\-\/]+\<close> after its first character, then \<open>\b\<close>: greedy,
  giving characters back one at a time until \<open>\b\<close> holds. \<open>a\<close> is the last character
  matched, \<open>acc\<close> is capture group 2 so far (ending in \<open>a\<close>).\<close>

fun tag_more :: "(nat \<Rightarrow> bool) \<Rightarrow> jstring \<Rightarrow> nat \<Rightarrow> jstring \<Rightarrow> (jstring \<times> jstring) option" where
  "tag_more L acc a [] = (if word_boundary a [] then Some (acc, []) else None)"
| "tag_more L acc a (c # cs) =
     (case (if tag_char L c then tag_more L (acc @ [c]) c cs else None) of
        Some r \<Rightarrow> Some r
      | None \<Rightarrow> if word_boundary a (c # cs) then Some (acc, c # cs) else None)"

text \<open>\<open>#([\p{L}0-9_\-\/]+)\b\<close>.\<close>

fun hash_tag :: "(nat \<Rightarrow> bool) \<Rightarrow> jstring \<Rightarrow> (jstring \<times> jstring) option" where
  "hash_tag L (h # c # cs) = (if h = 35 \<and> tag_char L c then tag_more L [c] c cs else None)"
| "hash_tag L _ = None"

text \<open>One attempt of the whole pattern at an index: \<open>(^|\s)\<close> tries \<open>^\<close> first, which
  holds at index 0 only (no \<open>m\<close> flag), then one white-space character.\<close>

definition tag_at :: "(nat \<Rightarrow> bool) \<Rightarrow> bool \<Rightarrow> jstring \<Rightarrow> (jstring \<times> jstring) option" where
  "tag_at L at_start s =
     (case (if at_start then hash_tag L s else None) of
        Some r \<Rightarrow> Some r
      | None \<Rightarrow> (case s of c # cs \<Rightarrow> if js_space c then hash_tag L cs else None | [] \<Rightarrow> None))"

lemma tag_more_shorter: "tag_more L acc a s = Some (t, r) \<Longrightarrow> length r \<le> length s"
proof (induction L acc a s rule: tag_more.induct)
  case (1 L acc a)
  then show ?case by (auto split: if_splits)
next
  case (2 L acc a c cs)
  then show ?case by (fastforce split: option.splits if_splits)
qed

lemma hash_tag_shorter: "hash_tag L s = Some (t, r) \<Longrightarrow> length r < length s"
  by (induction L s rule: hash_tag.induct)
     (auto split: if_splits dest: tag_more_shorter)

lemma tag_at_shorter: "tag_at L b s = Some (t, r) \<Longrightarrow> length r < length s"
  by (fastforce simp: tag_at_def split: option.splits if_splits list.splits
                dest: hash_tag_shorter)

text \<open>\<open>content.matchAll(TAG_RE)\<close>, listing capture group 2 of every match.
  \<open>at_start\<close> says that the index is 0.\<close>

function tag_matches :: "(nat \<Rightarrow> bool) \<Rightarrow> bool \<Rightarrow> jstring \<Rightarrow> jstring list" where
  "tag_matches L at_start s =
     (case tag_at L at_start s of
        Some (t, r) \<Rightarrow> t # tag_matches L False r
      | None \<Rightarrow> (case s of [] \<Rightarrow> [] | c # cs \<Rightarrow> tag_matches L False cs))"
  by pat_completeness auto
termination
  by (relation "measure (\<lambda>(L, b, s). length s)") (auto dest: tag_at_shorter)

declare tag_matches.simps [simp del]

text \<open>
  \<^verbatim>\<open>
  function extractTags(content) {
    const tags = new Set();
    for (const m of content.matchAll(TAG_RE)) tags.add(m[2]);
    return [...tags];
  }
  \<close>
\<close>

definition extractTags :: "(nat \<Rightarrow> bool) \<Rightarrow> jstring \<Rightarrow> jstring list" where
  "extractTags L content = foldl set_add [] (tag_matches L True content)"

section \<open>The database\<close>

text \<open>
  A field of a JSON request body as the handlers read it: absent (\<open>undefined\<close>),
  \<open>null\<close>, a string or a number. A number is given by the text SQLite stores for it
  in a column of TEXT affinity. Booleans, arrays and objects are not modelled.
\<close>

datatype jsval = JUndefined | JNull | JString jstring | JNumber jstring

text \<open>
  \<^verbatim>\<open>
  CREATE TABLE IF NOT EXISTS notes (
    id INTEGER PRIMARY KEY,
    title TEXT UNIQUE NOT NULL,
    content TEXT NOT NULL DEFAULT '',
    created_at TEXT NOT NULL DEFAULT (datetime('now')),
    updated_at TEXT NOT NULL DEFAULT (datetime('now'))
  );
  \<close>
\<close>

record note_row =
  note_id :: int
  title :: jstring
  content :: jstring
  created_at :: jstring
  updated_at :: jstring

text \<open>The four tables. \<open>notes_tbl\<close> is the table \<open>notes\<close>, in the order of
  insertion; \<open>links\<close> holds the rows \<open>(source_id, target_title)\<close>, \<open>tags\<close> the rows
  \<open>(note_id, tag)\<close> and \<open>notes_fts\<close> the indexed documents \<open>(rowid, title, content)\<close>.\<close>

record db =
  notes_tbl :: "note_row list"
  links :: "(int \<times> jstring) list"
  tags :: "(int \<times> jstring) list"
  notes_fts :: "(int \<times> jstring \<times> jstring) list"

definition empty_db :: db where
  "empty_db = \<lparr>notes_tbl = [], links = [], tags = [], notes_fts = []\<rparr>"

text \<open>
  What one request takes from outside the program: whether the SQLite build enforces
  foreign keys, the Unicode table behind \<open>\p{L}\<close>, the FTS5 engine behind
  \<open>notes_fts MATCH ?\<close> (the row ids it finds in the indexed documents, or \<open>None\<close> when
  it raises an error on the query), and the clock.
\<close>

record env =
  foreign_keys :: bool
  letter :: "nat \<Rightarrow> bool"
  fts5_match :: "jstring \<Rightarrow> (int \<times> jstring \<times> jstring) list \<Rightarrow> int list option"
  now :: jstring

datatype error = NotNullConstraint | UniqueConstraint | ForeignKeyConstraint | TypeError

text \<open>Binding a value to a parameter of a statement: \<open>undefined\<close> and \<open>null\<close> are
  bound as NULL, a number stored in a TEXT column becomes text.\<close>

fun sql_bind :: "jsval \<Rightarrow> jstring option" where
  "sql_bind (JString s) = Some s"
| "sql_bind (JNumber s) = Some s"
| "sql_bind JUndefined = None"
| "sql_bind JNull = None"

subsection \<open>Triggers\<close>

text \<open>
  \<^verbatim>\<open>
  CREATE TRIGGER IF NOT EXISTS notes_ai AFTER INSERT ON notes BEGIN
    INSERT INTO notes_fts(rowid, title, content) VALUES (new.id, new.title, new.content);
  END;
  CREATE TRIGGER IF NOT EXISTS notes_ad AFTER DELETE ON notes BEGIN
    INSERT INTO notes_fts(notes_fts, rowid, title, content)
      VALUES('delete', old.id, old.title, old.content);
  END;
  CREATE TRIGGER IF NOT EXISTS notes_au AFTER UPDATE ON notes BEGIN
    (the statement of notes_ad, then the statement of notes_ai)
  END;
  \<close>
  The \<open>'delete'\<close> command of FTS5 removes the document of the given row id. The
  triggers are taken to be installed: the program ignores a failure to create them.
\<close>

definition notes_ai :: "note_row \<Rightarrow> (int \<times> jstring \<times> jstring) list \<Rightarrow> (int \<times> jstring \<times> jstring) list" where
  "notes_ai new fts = fts @ [(note_id new, title new, content new)]"

definition notes_ad :: "note_row \<Rightarrow> (int \<times> jstring \<times> jstring) list \<Rightarrow> (int \<times> jstring \<times> jstring) list" where
  "notes_ad old fts = filter (\<lambda>d. fst d \<noteq> note_id old) fts"

definition notes_au :: "note_row \<Rightarrow> note_row \<Rightarrow> (int \<times> jstring \<times> jstring) list \<Rightarrow> (int \<times> jstring \<times> jstring) list" where
  "notes_au old new fts = notes_ai new (notes_ad old fts)"

subsection \<open>Statements\<close>

text \<open>Each statement run outside a transaction commits on its own; a statement that
  violates a constraint changes nothing and raises.\<close>

definition has_note :: "db \<Rightarrow> int \<Rightarrow> bool" where
  "has_note st i = (\<exists>n \<in> set (notes_tbl st). note_id n = i)"

text \<open>\<^verbatim>\<open>SELECT * FROM notes WHERE id=?\<close> with \<open>.get\<close>: the first row, or \<open>undefined\<close>.\<close>

definition select_note :: "db \<Rightarrow> int \<Rightarrow> note_row option" where
  "select_note st i = find (\<lambda>n. note_id n = i) (notes_tbl st)"

text \<open>\<^verbatim>\<open>UPDATE notes SET title=?, content=?, updated_at=? WHERE id=?\<close>: no row with the
  id is no error; NOT NULL and UNIQUE are checked on the row that is written.\<close>

definition update_note :: "env \<Rightarrow> db \<Rightarrow> int \<Rightarrow> jsval \<Rightarrow> jsval \<Rightarrow> error + db" where
  "update_note e st i t c =
     (case select_note st i of
        None \<Rightarrow> Inr st
      | Some old \<Rightarrow>
          (case sql_bind t of
             None \<Rightarrow> Inl NotNullConstraint
           | Some t' \<Rightarrow>
               (case sql_bind c of
                  None \<Rightarrow> Inl NotNullConstraint
                | Some c' \<Rightarrow>
                    if \<exists>n \<in> set (notes_tbl st). note_id n \<noteq> i \<and> title n = t'
                    then Inl UniqueConstraint
                    else
                      let new = old\<lparr>title := t', content := c', updated_at := now e\<rparr>
                      in Inr (st\<lparr>notes_tbl := map (\<lambda>n. if note_id n = i then new else n) (notes_tbl st),
                                 notes_fts := notes_au old new (notes_fts st)\<rparr>))))"

text \<open>The row id SQLite gives a new row: 1 in an empty table, else one more than the
  largest row id. Row ids are 64-bit integers in SQLite and numbers in JavaScript; the
  model is the same for row ids below \<open>2^53\<close>, and the routes, which assign row ids
  from 1 upwards, produce no other.\<close>

definition next_rowid :: "note_row list \<Rightarrow> int" where
  "next_rowid ns = (case ns of [] \<Rightarrow> 1 | n # ns' \<Rightarrow> fold max (map note_id ns') (note_id n) + 1)"

text \<open>\<^verbatim>\<open>INSERT INTO notes(title, content, updated_at) VALUES (?, ?, ?)\<close>, giving
  \<open>info.lastInsertRowid\<close>.\<close>

definition insert_note :: "env \<Rightarrow> db \<Rightarrow> jsval \<Rightarrow> jsval \<Rightarrow> error + int \<times> db" where
  "insert_note e st t c =
     (case sql_bind t of
        None \<Rightarrow> Inl NotNullConstraint
      | Some t' \<Rightarrow>
          (case sql_bind c of
             None \<Rightarrow> Inl NotNullConstraint
           | Some c' \<Rightarrow>
               if \<exists>n \<in> set (notes_tbl st). title n = t'
               then Inl UniqueConstraint
               else
                 let new = \<lparr>note_id = next_rowid (notes_tbl st), title = t', content = c',
                            created_at = now e, updated_at = now e\<rparr>
                 in Inr (note_id new,
                         st\<lparr>notes_tbl := notes_tbl st @ [new],
                            notes_fts := notes_ai new (notes_fts st)\<rparr>)))"

text \<open>\<^verbatim>\<open>DELETE FROM links WHERE source_id=?\<close> and \<^verbatim>\<open>DELETE FROM tags WHERE note_id=?\<close>.\<close>

definition delete_links :: "db \<Rightarrow> int \<Rightarrow> db" where
  "delete_links st i = st\<lparr>links := filter (\<lambda>l. fst l \<noteq> i) (links st)\<rparr>"

definition delete_tags :: "db \<Rightarrow> int \<Rightarrow> db" where
  "delete_tags st i = st\<lparr>tags := filter (\<lambda>l. fst l \<noteq> i) (tags st)\<rparr>"

text \<open>\<^verbatim>\<open>INSERT INTO links(source_id, target_title) VALUES(?, ?)\<close> and
  \<^verbatim>\<open>INSERT INTO tags(note_id, tag) VALUES(?, ?)\<close>; both tables declare
  \<^verbatim>\<open>FOREIGN KEY(...) REFERENCES notes(id)\<close>.\<close>

definition insert_link :: "env \<Rightarrow> db \<Rightarrow> int \<Rightarrow> jstring \<Rightarrow> error + db" where
  "insert_link e st i t =
     (if foreign_keys e \<and> \<not> has_note st i then Inl ForeignKeyConstraint
      else Inr (st\<lparr>links := links st @ [(i, t)]\<rparr>))"

definition insert_tag :: "env \<Rightarrow> db \<Rightarrow> int \<Rightarrow> jstring \<Rightarrow> error + db" where
  "insert_tag e st i t =
     (if foreign_keys e \<and> \<not> has_note st i then Inl ForeignKeyConstraint
      else Inr (st\<lparr>tags := tags st @ [(i, t)]\<rparr>))"

text \<open>\<^verbatim>\<open>DELETE FROM notes WHERE id=?\<close>, giving \<open>info.changes\<close>: a row that link or tag
  rows still refer to cannot be deleted when foreign keys are enforced.\<close>

definition delete_note :: "env \<Rightarrow> db \<Rightarrow> int \<Rightarrow> error + nat \<times> db" where
  "delete_note e st i =
     (if foreign_keys e \<and> has_note st i \<and>
         (i \<in> fst ` set (links st) \<or> i \<in> fst ` set (tags st))
      then Inl ForeignKeyConstraint
      else Inr (length (filter (\<lambda>n. note_id n = i) (notes_tbl st)),
                st\<lparr>notes_tbl := filter (\<lambda>n. note_id n \<noteq> i) (notes_tbl st),
                   notes_fts := fold notes_ad (filter (\<lambda>n. note_id n = i) (notes_tbl st))
                                  (notes_fts st)\<rparr>))"

section \<open>Note store\<close>

text \<open>
  \<^verbatim>\<open>
  const tx = db.transaction(() => {
    for (const t of targets) insLink.run(id, t);
    for (const t of tags) insTag.run(id, t);
  });
  tx();
  \<close>
  A statement that raises inside the transaction rolls the transaction back: the
  result is the error alone, and the caller keeps the state before \<open>tx()\<close>.
\<close>

fun insert_links :: "env \<Rightarrow> db \<Rightarrow> int \<Rightarrow> jstring list \<Rightarrow> error + db" where
  "insert_links e st i [] = Inr st"
| "insert_links e st i (t # ts) =
     (case insert_link e st i t of Inl x \<Rightarrow> Inl x | Inr st' \<Rightarrow> insert_links e st' i ts)"

fun insert_tags :: "env \<Rightarrow> db \<Rightarrow> int \<Rightarrow> jstring list \<Rightarrow> error + db" where
  "insert_tags e st i [] = Inr st"
| "insert_tags e st i (t # ts) =
     (case insert_tag e st i t of Inl x \<Rightarrow> Inl x | Inr st' \<Rightarrow> insert_tags e st' i ts)"

definition tx :: "env \<Rightarrow> db \<Rightarrow> int \<Rightarrow> jstring list \<Rightarrow> jstring list \<Rightarrow> error + db" where
  "tx e st i targets tgs =
     (case insert_links e st i targets of
        Inl x \<Rightarrow> Inl x
      | Inr st' \<Rightarrow> insert_tags e st' i tgs)"

text \<open>
  \<^verbatim>\<open>
  function upsertNote({ id, title, content }) {
    const now = new Date().toISOString().slice(0, 19).replace('T', ' ');
    if (id) {
      const stmt = db.prepare(`UPDATE notes SET title=?, content=?, updated_at=? WHERE id=?`);
      stmt.run(title, content, now, id);
    } else {
      const stmt = db.prepare(`INSERT INTO notes(title, content, updated_at) VALUES (?, ?, ?)`);
      const info = stmt.run(title, content, now);
      id = info.lastInsertRowid;
    }
    // Rebuild links/tags for this note
    db.prepare(`DELETE FROM links WHERE source_id=?`).run(id);
    db.prepare(`DELETE FROM tags WHERE note_id=?`).run(id);
    const targets = extractLinks(content);
    const tags = extractTags(content);
    ...
    tx();
    return db.prepare(`SELECT * FROM notes WHERE id=?`).get(id);
  }
  \<close>
  The result is what the call returns or throws, and the database it leaves: the
  statements before \<open>tx()\<close> have committed when a later step throws. \<open>if (id)\<close> is
  false for an absent id and for 0. \<open>content.matchAll\<close> throws a \<open>TypeError\<close> when
  \<open>content\<close> is not a string.
\<close>

definition upsertNote :: "env \<Rightarrow> db \<Rightarrow> int option \<Rightarrow> jsval \<Rightarrow> jsval \<Rightarrow> (error + note_row option) \<times> db" where
  "upsertNote e st ident t c =
     (case (case ident of
              None \<Rightarrow> insert_note e st t c
            | Some i \<Rightarrow>
                if i \<noteq> 0
                then (case update_note e st i t c of Inl x \<Rightarrow> Inl x | Inr st' \<Rightarrow> Inr (i, st'))
                else insert_note e st t c) of
        Inl x \<Rightarrow> (Inl x, st)
      | Inr (i, st1) \<Rightarrow>
          let st2 = delete_tags (delete_links st1 i) i in
          (case c of
             JString s \<Rightarrow>
               (case tx e st2 i (extractLinks s) (extractTags (letter e) s) of
                  Inl x \<Rightarrow> (Inl x, st2)
                | Inr st3 \<Rightarrow> (Inr (select_note st3 i), st3))
           | _ \<Rightarrow> (Inl TypeError, st2)))"

subsection \<open>Routes\<close>

text \<open>The answer of a route: the HTTP status and the JSON body.\<close>

datatype body =
    NoteJson "note_row option"
  | ErrorJson error
  | BadId
  | Deleted nat
  | PromptRequired
  | AIRouteFailure

type_synonym reply = "nat \<times> body"

text \<open>
  \<^verbatim>\<open>
  app.post('/api/notes', (req, res) => {
    const { title, content='' } = req.body;
    try {
      const note = upsertNote({ title, content });
      res.status(201).json(note);
    } catch (e) {
      res.status(400).json({ error: e.message });
    }
  });
  \<close>
\<close>

definition post_notes :: "env \<Rightarrow> db \<Rightarrow> jsval \<Rightarrow> jsval \<Rightarrow> reply \<times> db" where
  "post_notes e st t c =
     (case upsertNote e st None t (if c = JUndefined then JString [] else c) of
        (Inr n, st') \<Rightarrow> ((201, NoteJson n), st')
      | (Inl x, st') \<Rightarrow> ((400, ErrorJson x), st'))"

text \<open>
  \<^verbatim>\<open>
  app.put('/api/notes/:id', (req, res) => {
    const { title, content } = req.body;
    const id = Number(req.params.id);
    if (!Number.isInteger(id)) return res.status(400).json({ error: 'Bad id' });
    try {
      const note = upsertNote({ id, title, content });
      res.json(note);
    } catch (e) {
      res.status(400).json({ error: e.message });
    }
  });
  \<close>
  The path parameter is \<open>None\<close> when \<open>Number(req.params.id)\<close> is not an integer.
\<close>

definition put_notes :: "env \<Rightarrow> db \<Rightarrow> int option \<Rightarrow> jsval \<Rightarrow> jsval \<Rightarrow> reply \<times> db" where
  "put_notes e st ident t c =
     (case ident of
        None \<Rightarrow> ((400, BadId), st)
      | Some i \<Rightarrow>
          (case upsertNote e st (Some i) t c of
             (Inr n, st') \<Rightarrow> ((200, NoteJson n), st')
           | (Inl x, st') \<Rightarrow> ((400, ErrorJson x), st')))"

text \<open>
  \<^verbatim>\<open>
  app.delete('/api/notes/:id', (req, res) => {
    const id = Number(req.params.id);
    db.prepare(`DELETE FROM links WHERE source_id=?`).run(id);
    db.prepare(`DELETE FROM tags WHERE note_id=?`).run(id);
    const info = db.prepare(`DELETE FROM notes WHERE id=?`).run(id);
    res.json({ deleted: info.changes });
  });
  \<close>
  An id that is not an integer (\<open>None\<close>) equals no row id, so the three statements
  delete nothing. The route catches no exception: one would be answered with
  status 500.
\<close>

definition delete_notes :: "env \<Rightarrow> db \<Rightarrow> int option \<Rightarrow> reply \<times> db" where
  "delete_notes e st ident =
     (case ident of
        None \<Rightarrow> ((200, Deleted 0), st)
      | Some i \<Rightarrow>
          let st2 = delete_tags (delete_links st i) i in
          (case delete_note e st2 i of
             Inl x \<Rightarrow> ((500, ErrorJson x), st2)
           | Inr (k, st3) \<Rightarrow> ((200, Deleted k), st3)))"

section \<open>Context assembler\<close>

text \<open>The SQLite operator \<open>LIKE\<close> (pattern first): \<open>%\<close> (37) stands for any run of
  characters, \<open>_\<close> (95) for any one character, and the letters \<open>a\<close> to \<open>z\<close> match
  their upper-case forms.\<close>

definition like_fold :: "nat \<Rightarrow> nat" where
  "like_fold c = (if 97 \<le> c \<and> c \<le> 122 then c - 32 else c)"

fun sql_like :: "jstring \<Rightarrow> jstring \<Rightarrow> bool" where
  "sql_like [] s = (s = [])"
| "sql_like (p # ps) [] = (p = 37 \<and> sql_like ps [])"
| "sql_like (p # ps) (c # cs) =
     (if p = 37 then sql_like ps (c # cs) \<or> sql_like (p # ps) cs
      else (p = 95 \<or> like_fold p = like_fold c) \<and> sql_like ps cs)"

text \<open>SQLite's text functions (\<open>LIKE\<close>, \<open>substr\<close>) read a value as a C string: up to its
  first character U+0000.\<close>

definition cstr :: "jstring \<Rightarrow> jstring" where
  "cstr s = takeWhile (\<lambda>c. c \<noteq> 0) s"

text \<open>The length of a text in bytes, as SQLite holds it (UTF-8).\<close>

definition utf8_len :: "nat \<Rightarrow> nat" where
  "utf8_len c = (if c < 128 then 1 else if c < 2048 then 2 else if c < 65536 then 3 else 4)"

definition utf8_bytes :: "jstring \<Rightarrow> nat" where
  "utf8_bytes s = sum_list (map utf8_len s)"

text \<open>\<open>SQLITE_MAX_LIKE_PATTERN_LENGTH\<close>, at its default: \<open>LIKE\<close> raises
  \<open>LIKE or GLOB pattern too complex\<close> on a longer pattern.\<close>

definition max_like_pattern_length :: nat where
  "max_like_pattern_length = 50000"

text \<open>\<open>LIMIT ?\<close> with a number bound to it (\<open>topK\<close>, taken to be a whole number): the
  statement raises \<open>datatype mismatch\<close> unless the number lies strictly between
  \<open>-2^63\<close> and \<open>2^63\<close>; a negative limit is no limit.\<close>

definition limit_ok :: "int \<Rightarrow> bool" where
  "limit_ok k = (- (2 ^ 63) < k \<and> k < 2 ^ 63)"

definition limit_rows :: "int \<Rightarrow> 'a list \<Rightarrow> 'a list" where
  "limit_rows k xs = (if k < 0 then xs else take (nat k) xs)"

definition sql_limit :: "int \<Rightarrow> 'a list \<Rightarrow> 'a list option" where
  "sql_limit k xs = (if limit_ok k then Some (limit_rows k xs) else None)"

text \<open>An entry of the context: \<open>(id, title, content)\<close>.\<close>

type_synonym ctx_note = "int \<times> jstring \<times> jstring"

text \<open>
  \<^verbatim>\<open>
  let contextNotes = [];
  const usedIds = new Set();
  function pushNote(n){
    if (!n || usedIds.has(n.id)) return; usedIds.add(n.id); contextNotes.push(n);
  }
  \<close>
  The state is the pair \<open>(contextNotes, usedIds)\<close>; \<open>None\<close> is a row that was not found.
\<close>

fun pushNote :: "ctx_note list \<times> int list \<Rightarrow> ctx_note option \<Rightarrow> ctx_note list \<times> int list" where
  "pushNote (contextNotes, usedIds) None = (contextNotes, usedIds)"
| "pushNote (contextNotes, usedIds) (Some n) =
     (if fst n \<in> set usedIds then (contextNotes, usedIds)
      else (contextNotes @ [n], set_add usedIds (fst n)))"

text \<open>\<^verbatim>\<open>SELECT id,title,content FROM notes ORDER BY updated_at DESC LIMIT 50\<close>
  (rows with equal \<open>updated_at\<close> come in table order, as SQLite returns them; SQL
  leaves their order open).\<close>

definition recent_notes :: "db \<Rightarrow> ctx_note list" where
  "recent_notes st =
     take 50 (map (\<lambda>n. (note_id n, title n, content n))
                (rev (sort_key updated_at (rev (notes_tbl st)))))"

text \<open>
  \<^verbatim>\<open>
  SELECT n.id,n.title,substr(n.content,1,4000) as content
  FROM notes_fts f JOIN notes n ON n.id=f.rowid
  WHERE notes_fts MATCH ? LIMIT ?
  \<close>
  \<open>None\<close> when the statement raises: on a limit that is out of range, or when the FTS5
  engine raises on the query. With the limit 0 the statement returns no row before the
  engine has read the query.
\<close>

definition fts_notes :: "env \<Rightarrow> db \<Rightarrow> jstring \<Rightarrow> int \<Rightarrow> ctx_note list option" where
  "fts_notes e st q k =
     (if \<not> limit_ok k then None
      else if k = 0 then Some []
      else
        (case fts5_match e q (notes_fts st) of
           None \<Rightarrow> None
         | Some rowids \<Rightarrow>
             sql_limit k
               (map (\<lambda>n. (note_id n, title n, take 4000 (cstr (content n))))
                  (concat (map (\<lambda>r. filter (\<lambda>n. note_id n = r) (notes_tbl st)) rowids)))))"

text \<open>\<^verbatim>\<open>SELECT id,title,substr(content,1,4000) as content FROM notes WHERE title LIKE ? LIMIT ?\<close>
  (rows in table order). \<open>None\<close> when the statement raises: on a limit that is out of
  range, or on a pattern that is too long, which \<open>LIKE\<close> finds when it is applied to the
  first row (so not in an empty table, and not with the limit 0).\<close>

definition like_notes :: "db \<Rightarrow> jstring \<Rightarrow> int \<Rightarrow> ctx_note list option" where
  "like_notes st pat k =
     (if \<not> limit_ok k then None
      else if k \<noteq> 0 \<and> notes_tbl st \<noteq> [] \<and> max_like_pattern_length < utf8_bytes pat then None
      else
        sql_limit k
          (map (\<lambda>n. (note_id n, title n, take 4000 (cstr (content n))))
             (filter (\<lambda>n. sql_like (cstr pat) (cstr (title n))) (notes_tbl st))))"

text \<open>
  The part of \<^verbatim>\<open>app.post('/api/ai/chat', ...)\<close> that builds \<open>contextNotes\<close>:
  \<^verbatim>\<open>
  const { prompt, noteId, topK = 5, includeAll = false } = req.body || {};
  if (!prompt || !prompt.trim()) return res.status(400).json({ error: 'Prompt required' });
  ...
  if (noteId) {
    const n = db.prepare('SELECT id,title,content FROM notes WHERE id=?').get(noteId);
    pushNote(n);
  }
  if (includeAll) {
    db.prepare('SELECT ... ORDER BY updated_at DESC LIMIT 50').all().forEach(pushNote);
  } else {
    const q = prompt.replace(/"/g, '');
    try {
      db.prepare(`... WHERE notes_fts MATCH ? LIMIT ?`).all(q, topK).forEach(pushNote);
    } catch (e) {
      db.prepare(`... WHERE title LIKE ? LIMIT ?`).all('%'+q+'%', topK).forEach(pushNote);
    }
  }
  \<close>
  The result is the early answer, or \<open>contextNotes\<close> as the rest of the route uses it.
  An absent prompt is the empty one; \<open>topK\<close> is \<open>None\<close> when absent. What the statement
  of the \<open>catch\<close> block throws reaches the handler around the whole route:
  \<^verbatim>\<open>
  } catch (e) {
    res.status(500).json({ error: 'AI route failure', detail: e.message });
  }
  \<close>
\<close>

text \<open>\<open>topK = 5\<close> and \<open>prompt.replace(/"/g, '')\<close> (\<open>"\<close> is 34).\<close>

definition topK_or_default :: "int option \<Rightarrow> int" where
  "topK_or_default topK = (case topK of None \<Rightarrow> 5 | Some k \<Rightarrow> k)"

definition strip_quotes :: "jstring \<Rightarrow> jstring" where
  "strip_quotes prompt = filter (\<lambda>c. c \<noteq> 34) prompt"

definition chat_context :: "env \<Rightarrow> db \<Rightarrow> jstring \<Rightarrow> int option \<Rightarrow> int option \<Rightarrow> bool \<Rightarrow> reply + ctx_note list" where
  "chat_context e st prompt noteId topK includeAll =
     (if trim prompt = [] then Inl (400, PromptRequired)
      else
        let k = topK_or_default topK;
            s0 = ([], []);
            s1 = (case noteId of
                    None \<Rightarrow> s0
                  | Some i \<Rightarrow>
                      if i \<noteq> 0
                      then pushNote s0
                             (map_option (\<lambda>n. (note_id n, title n, content n)) (select_note st i))
                      else s0)
        in
          if includeAll then Inr (fst (foldl pushNote s1 (map Some (recent_notes st))))
          else
            let q = strip_quotes prompt in
            (case fts_notes e st q k of
               Some rows \<Rightarrow> Inr (fst (foldl pushNote s1 (map Some rows)))
             | None \<Rightarrow>
                 (case like_notes st (37 # q @ [37]) k of
                    Some rows \<Rightarrow> Inr (fst (foldl pushNote s1 (map Some rows)))
                  | None \<Rightarrow> Inl (500, AIRouteFailure))))"

section \<open>Concrete inputs\<close>

text \<open>An environment and databases used as concrete inputs below. The environment
  takes the letters \<open>A\<close> to \<open>Z\<close> and \<open>a\<close> to \<open>z\<close> for \<open>\p{L}\<close>, and its FTS5 engine
  raises on every query.\<close>

definition ascii_letter :: "nat \<Rightarrow> bool" where
  "ascii_letter c = ((65 \<le> c \<and> c \<le> 90) \<or> (97 \<le> c \<and> c \<le> 122))"

definition env0 :: "bool \<Rightarrow> env" where
  "env0 fk = \<lparr>foreign_keys = fk, letter = ascii_letter,
              fts5_match = (\<lambda>q docs. None), now = js ''2024-05-01 10:00:00''\<rparr>"

text \<open>A database with link and tag rows whose note does not exist.\<close>

definition orphans_db :: db where
  "orphans_db = empty_db\<lparr>links := [(7, js ''A''), (8, js ''B'')], tags := [(7, js ''x'')]\<rparr>"

text \<open>A database with one note, its link row, its tag row and its search document.\<close>

definition alpha_note :: note_row where
  "alpha_note = \<lparr>note_id = 1, title = js ''Alpha'', content = js ''[[Old]] #old'',
                  created_at = js ''2024-04-01 09:00:00'', updated_at = js ''2024-04-01 09:00:00''\<rparr>"

definition alpha_db :: db where
  "alpha_db = \<lparr>notes_tbl = [alpha_note], links = [(1, js ''Old'')], tags = [(1, js ''old'')],
                notes_fts = [(1, js ''Alpha'', js ''[[Old]] #old'')]\<rparr>"

lemmas parser_defs =
  extractLinks_def wikilink_matches.simps title_char_def heading_close_def trim_def
  js_space_def line_terminator_def set_add_def extractTags_def tag_matches.simps tag_at_def
  tag_char_def word_char_def word_boundary_def ascii_letter_def

lemmas store_defs =
  upsertNote_def update_note_def insert_note_def select_note_def next_rowid_def
  notes_ai_def notes_ad_def notes_au_def delete_links_def delete_tags_def tx_def
  insert_link_def insert_tag_def has_note_def delete_note_def
  post_notes_def put_notes_def delete_notes_def
  env0_def empty_db_def alpha_db_def alpha_note_def orphans_db_def

section \<open>Deleting a note\<close>

lemma delete_note_after_purge:
  "delete_note e (delete_tags (delete_links st i) i) i =
     Inr (length (filter (\<lambda>n. note_id n = i) (notes_tbl st)),
          st\<lparr>notes_tbl := filter (\<lambda>n. note_id n \<noteq> i) (notes_tbl st),
             links := filter (\<lambda>l. fst l \<noteq> i) (links st),
             tags := filter (\<lambda>l. fst l \<noteq> i) (tags st),
             notes_fts := fold notes_ad (filter (\<lambda>n. note_id n = i) (notes_tbl st))
                            (notes_fts st)\<rparr>)"
  by (auto simp: delete_note_def delete_tags_def delete_links_def has_note_def)

lemma no_note_filter_eq: "\<not> has_note st i \<Longrightarrow> filter (\<lambda>n. note_id n = i) (notes_tbl st) = []"
  by (auto simp: has_note_def filter_empty_conv)

lemma no_note_filter_neq:
  "\<not> has_note st i \<Longrightarrow> filter (\<lambda>n. note_id n \<noteq> i) (notes_tbl st) = notes_tbl st"
  by (auto simp: has_note_def filter_id_conv)

text \<open>
  C10. For every id, the route that deletes a note removes all link rows with that
  source id and all tag rows with that note id, whether or not a note with the id
  exists: the two clean-up statements run before the note is deleted and do not depend
  on it. When no note has the id, the answer is \<open>deleted: 0\<close>, the notes and the search
  documents are as before, and the link and tag rows carrying the id are gone all the
  same.
\<close>

theorem delete_purges_rows_of_any_id:
  assumes "delete_notes e st (Some i) = (r, st')"
  shows "links st' = filter (\<lambda>l. fst l \<noteq> i) (links st) \<and>
         tags st' = filter (\<lambda>l. fst l \<noteq> i) (tags st) \<and>
         (\<not> has_note st i \<longrightarrow>
            r = (200, Deleted 0) \<and> notes_tbl st' = notes_tbl st \<and> notes_fts st' = notes_fts st)"
  using assms
  by (auto simp: delete_notes_def Let_def delete_note_after_purge
                 no_note_filter_eq no_note_filter_neq)

theorem delete_purges_rows_of_any_id_witness:
  "delete_notes (env0 False) orphans_db (Some 7) =
     ((200, Deleted 0), empty_db\<lparr>links := [(8, js ''B'')]\<rparr>)"
proof -
  obtain r st' where run: "delete_notes (env0 False) orphans_db (Some 7) = (r, st')"
    by (cases "delete_notes (env0 False) orphans_db (Some 7)")
  have none: "\<not> has_note orphans_db 7"
    by (simp add: has_note_def orphans_db_def empty_db_def)
  from delete_purges_rows_of_any_id [OF run] none
  have "links st' = [(8, js ''B'')]" and "tags st' = []" and "r = (200, Deleted 0)"
    and "notes_tbl st' = []" and "notes_fts st' = []"
    by (simp_all add: orphans_db_def empty_db_def)
  then have "st' = empty_db\<lparr>links := [(8, js ''B'')]\<rparr>"
    by (cases st') (simp add: empty_db_def)
  with run \<open>r = (200, Deleted 0)\<close> show ?thesis by simp
qed

section \<open>Writing a note\<close>

lemma has_note_links_upd [simp]: "has_note (st\<lparr>links := x\<rparr>) i = has_note st i"
  and has_note_tags_upd [simp]: "has_note (st\<lparr>tags := y\<rparr>) i = has_note st i"
  by (simp_all add: has_note_def)

lemma insert_links_Inr:
  "insert_links e st i ts = Inr st' \<longleftrightarrow>
     (ts = [] \<or> \<not> foreign_keys e \<or> has_note st i) \<and>
     st' = st\<lparr>links := links st @ map (Pair i) ts\<rparr>"
proof (induction ts arbitrary: st)
  case Nil
  then show ?case by auto
next
  case (Cons t ts)
  then show ?case by (auto simp: insert_link_def)
qed

lemma insert_tags_Inr:
  "insert_tags e st i ts = Inr st' \<longleftrightarrow>
     (ts = [] \<or> \<not> foreign_keys e \<or> has_note st i) \<and>
     st' = st\<lparr>tags := tags st @ map (Pair i) ts\<rparr>"
proof (induction ts arbitrary: st)
  case Nil
  then show ?case by auto
next
  case (Cons t ts)
  then show ?case by (auto simp: insert_tag_def)
qed

lemma insert_links_Inl:
  "insert_links e st i ts = Inl x \<Longrightarrow> ts \<noteq> [] \<and> foreign_keys e \<and> \<not> has_note st i"
  using insert_links_Inr [of e st i ts] by (cases "insert_links e st i ts") auto

lemma insert_tags_Inl:
  "insert_tags e st i ts = Inl x \<Longrightarrow> ts \<noteq> [] \<and> foreign_keys e \<and> \<not> has_note st i"
  using insert_tags_Inr [of e st i ts] by (cases "insert_tags e st i ts") auto

text \<open>The transaction commits exactly when no insert violates the foreign key, and then
  it has appended one row per target and per tag.\<close>

lemma tx_Inr:
  "tx e st i ls ts = Inr st' \<longleftrightarrow>
     ((ls = [] \<and> ts = []) \<or> \<not> foreign_keys e \<or> has_note st i) \<and>
     st' = st\<lparr>links := links st @ map (Pair i) ls, tags := tags st @ map (Pair i) ts\<rparr>"
  by (auto simp: tx_def insert_links_Inr insert_tags_Inr split: sum.splits
           dest: insert_links_Inl)

lemma select_note_id: "select_note st i = Some n \<Longrightarrow> note_id n = i"
  by (auto simp: select_note_def find_Some_iff)

text \<open>A call that returns has read a string content, and has replaced the link and tag
  rows of the id it wrote by the extracted ones.\<close>

lemma upsertNote_Inr:
  assumes "upsertNote e st ident t c = (Inr r, st')"
  obtains s i st1 where "c = JString s" and "r = select_note st' i"
    and "st' = st1\<lparr>links := filter (\<lambda>l. fst l \<noteq> i) (links st1) @ map (Pair i) (extractLinks s),
                   tags := filter (\<lambda>l. fst l \<noteq> i) (tags st1) @
                           map (Pair i) (extractTags (letter e) s)\<rparr>"
  using assms
  by (auto simp: upsertNote_def Let_def tx_Inr delete_links_def delete_tags_def
           split: sum.splits prod.splits jsval.splits option.splits if_splits)

text \<open>The link targets and the tags the relation index holds for a note id, in row
  order.\<close>

definition link_targets :: "db \<Rightarrow> int \<Rightarrow> jstring list" where
  "link_targets st i = map snd (filter (\<lambda>l. fst l = i) (links st))"

definition tag_names :: "db \<Rightarrow> int \<Rightarrow> jstring list" where
  "tag_names st i = map snd (filter (\<lambda>l. fst l = i) (tags st))"

text \<open>
  C1. After every successful create or update of a note with content \<open>C\<close> (the call
  returns the note \<open>n\<close>), the link rows of that note are exactly \<open>extractLinks C\<close> and its
  tag rows are exactly \<open>extractTags C\<close>: row for row, so no row of the previous content
  survives and no extracted entry is missing. A call can only succeed on a string
  content.
\<close>

theorem write_rebuilds_links_and_tags:
  assumes "upsertNote e st ident t c = (Inr (Some n), st')"
  shows "\<exists>s. c = JString s \<and>
           link_targets st' (note_id n) = extractLinks s \<and>
           tag_names st' (note_id n) = extractTags (letter e) s"
proof -
  from assms obtain s i st1 where c: "c = JString s" and r: "Some n = select_note st' i"
    and st': "st' = st1\<lparr>links := filter (\<lambda>l. fst l \<noteq> i) (links st1) @
                                 map (Pair i) (extractLinks s),
                        tags := filter (\<lambda>l. fst l \<noteq> i) (tags st1) @
                                map (Pair i) (extractTags (letter e) s)\<rparr>"
    by (rule upsertNote_Inr)
  from r have "note_id n = i" by (simp add: select_note_id)
  with c st' show ?thesis
    by (simp add: link_targets_def tag_names_def o_def)
qed

text \<open>The concrete case of C1: rewriting the content of the note of \<open>alpha_db\<close> replaces
  its link row \<open>Old\<close> and its tag row \<open>old\<close> by the rows of the new content.\<close>

theorem write_rebuilds_links_and_tags_witness:
  "link_targets (snd (upsertNote (env0 True) alpha_db (Some 1) (JString (js ''Alpha''))
       (JString (js ''See [[Beta]] and #project/x'')))) 1 = [js ''Beta''] \<and>
   tag_names (snd (upsertNote (env0 True) alpha_db (Some 1) (JString (js ''Alpha''))
       (JString (js ''See [[Beta]] and #project/x'')))) 1 = [js ''project/x'']"
proof -
  let ?c = "js ''See [[Beta]] and #project/x''"
  obtain r st' where run:
    "upsertNote (env0 True) alpha_db (Some 1) (JString (js ''Alpha'')) (JString ?c) = (r, st')"
    by (cases "upsertNote (env0 True) alpha_db (Some 1) (JString (js ''Alpha'')) (JString ?c)")
  then have r: "r = Inr (Some (alpha_note\<lparr>content := ?c, updated_at := now (env0 True)\<rparr>))"
    by (simp add: store_defs parser_defs Let_def)
  have links: "extractLinks ?c = [js ''Beta'']" by (simp add: parser_defs)
  have tgs: "extractTags ascii_letter ?c = [js ''project/x'']" by (simp add: parser_defs)
  from write_rebuilds_links_and_tags [OF run [unfolded r]] links tgs
  have "link_targets st' 1 = [js ''Beta''] \<and> tag_names st' 1 = [js ''project/x'']"
    by (simp add: alpha_note_def env0_def)
  with run show ?thesis by simp
qed

section \<open>Invariant of the database\<close>

text \<open>
  What the schema and the triggers maintain: row ids are distinct (PRIMARY KEY) and
  positive (SQLite starts at 1), titles are distinct (UNIQUE), the search documents are
  those of the notes, and, when foreign keys are enforced, every link and tag row
  belongs to a note. The empty database satisfies it and every route preserves it,
  whatever the route answers.
\<close>

definition db_inv :: "bool \<Rightarrow> db \<Rightarrow> bool" where
  "db_inv fk st =
     (distinct (map note_id (notes_tbl st)) \<and>
      distinct (map title (notes_tbl st)) \<and>
      (\<forall>n \<in> set (notes_tbl st). 0 < note_id n) \<and>
      set (notes_fts st) = (\<lambda>n. (note_id n, title n, content n)) ` set (notes_tbl st) \<and>
      (fk \<longrightarrow> fst ` set (links st) \<subseteq> note_id ` set (notes_tbl st) \<and>
              fst ` set (tags st) \<subseteq> note_id ` set (notes_tbl st)))"

lemma has_note_conv: "has_note st i \<longleftrightarrow> i \<in> set (map note_id (notes_tbl st))"
  by (auto simp: has_note_def)

lemma db_inv_empty: "db_inv fk empty_db"
  by (simp add: db_inv_def empty_db_def)

lemma next_rowid_greater: "n \<in> set ns \<Longrightarrow> note_id n < next_rowid ns"
proof (cases ns)
  case Nil
  assume "n \<in> set ns"
  with Nil show ?thesis by simp
next
  case (Cons m ms)
  assume n: "n \<in> set ns"
  have "fold max (map note_id ms) (note_id m) = Max (set (map note_id ns))"
    using Max.set_eq_fold [of "note_id m" "map note_id ms"] by (simp add: Cons)
  moreover from n have "note_id n \<le> Max (set (map note_id ns))"
    by (intro Max_ge) auto
  ultimately show ?thesis by (simp add: next_rowid_def Cons)
qed

lemma next_rowid_pos: "\<forall>n \<in> set ns. 0 < note_id n \<Longrightarrow> 0 < next_rowid ns"
  using next_rowid_greater [of "hd ns" ns]
  by (cases ns) (auto simp: next_rowid_def)

lemma db_inv_insert_note:
  assumes "db_inv fk st" and "insert_note e st t c = Inr (i, st1)"
  shows "db_inv fk st1 \<and> has_note st1 i"
proof -
  from assms(2) obtain t' c' where
    fresh: "\<forall>n \<in> set (notes_tbl st). title n \<noteq> t'"
    and i: "i = next_rowid (notes_tbl st)"
    and st1: "st1 = st\<lparr>notes_tbl := notes_tbl st @ [\<lparr>note_id = i, title = t', content = c',
                 created_at = now e, updated_at = now e\<rparr>],
               notes_fts := notes_fts st @ [(i, t', c')]\<rparr>"
    by (auto simp: insert_note_def Let_def notes_ai_def split: option.splits if_splits)
  have "\<forall>n \<in> set (notes_tbl st). note_id n \<noteq> i"
    using next_rowid_greater [of _ "notes_tbl st"] i by fastforce
  moreover have "0 < i" using assms(1) i by (simp add: db_inv_def next_rowid_pos)
  ultimately show ?thesis
    using assms(1) fresh unfolding st1 db_inv_def has_note_def
    by (auto simp: image_iff)
qed

lemma db_inv_update_note:
  assumes "db_inv fk st" and "update_note e st i t c = Inr st1"
  shows "db_inv fk st1 \<and> has_note st1 i = has_note st i"
proof (cases "select_note st i")
  case None
  with assms show ?thesis by (simp add: update_note_def)
next
  case (Some old)
  then have old: "old \<in> set (notes_tbl st)" "note_id old = i"
    by (auto simp: select_note_def find_Some_iff)
  from assms(2) Some old(2) obtain t' c' where
    fresh: "\<forall>n \<in> set (notes_tbl st). note_id n \<noteq> i \<longrightarrow> title n \<noteq> t'"
    and st1: "st1 = st\<lparr>notes_tbl := map (\<lambda>n. if note_id n = i
                   then old\<lparr>title := t', content := c', updated_at := now e\<rparr> else n) (notes_tbl st),
               notes_fts := filter (\<lambda>d. fst d \<noteq> i) (notes_fts st) @ [(i, t', c')]\<rparr>"
    by (auto simp: update_note_def Let_def notes_au_def notes_ai_def notes_ad_def
             split: option.splits if_splits)
  let ?new = "old\<lparr>title := t', content := c', updated_at := now e\<rparr>"
  let ?f = "\<lambda>n. if note_id n = i then ?new else n"
  have ids: "map note_id (map ?f (notes_tbl st)) = map note_id (notes_tbl st)"
    using old by (induction "notes_tbl st") auto
  have dist: "distinct (map note_id (notes_tbl st))" using assms(1) by (simp add: db_inv_def)
  have uniq: "n \<in> set (notes_tbl st) \<Longrightarrow> note_id n = i \<Longrightarrow> n = old" for n
    using dist old by (auto simp: distinct_map dest: inj_onD)
  have titles: "distinct (map title (map ?f (notes_tbl st)))"
  proof -
    have "inj_on title (set (notes_tbl st))" "distinct (notes_tbl st)"
      using assms(1) by (auto simp: db_inv_def distinct_map)
    have "inj_on (title \<circ> ?f) (set (notes_tbl st))"
    proof (rule inj_onI)
      fix x y assume xy: "x \<in> set (notes_tbl st)" "y \<in> set (notes_tbl st)"
        "(title \<circ> ?f) x = (title \<circ> ?f) y"
      show "x = y"
      proof (cases "note_id x = i"; cases "note_id y = i")
        assume "note_id x = i" "note_id y = i"
        with xy uniq show ?thesis by blast
      next
        assume "note_id x = i" "note_id y \<noteq> i"
        with xy fresh show ?thesis by auto
      next
        assume "note_id x \<noteq> i" "note_id y = i"
        with xy fresh show ?thesis by auto
      next
        assume "note_id x \<noteq> i" "note_id y \<noteq> i"
        with xy \<open>inj_on title (set (notes_tbl st))\<close> show ?thesis by (auto dest: inj_onD)
      qed
    qed
    with \<open>distinct (notes_tbl st)\<close> show ?thesis by (simp add: distinct_map)
  qed
  have set_new: "set (map ?f (notes_tbl st)) = insert ?new {n \<in> set (notes_tbl st). note_id n \<noteq> i}"
    using old by (auto simp: image_iff)
  have fts: "set (filter (\<lambda>d. fst d \<noteq> i) (notes_fts st) @ [(i, t', c')]) =
             (\<lambda>n. (note_id n, title n, content n)) ` set (map ?f (notes_tbl st))"
    using assms(1) old unfolding set_new db_inv_def by (auto simp: image_iff)
  have "set (map note_id (map ?f (notes_tbl st))) = set (map note_id (notes_tbl st))"
    by (simp only: ids)
  then have img: "note_id ` set (map ?f (notes_tbl st)) = note_id ` set (notes_tbl st)"
    by (simp only: set_map)
  have pos: "\<forall>n \<in> set (map ?f (notes_tbl st)). 0 < note_id n"
    using assms(1) old unfolding db_inv_def by auto
  have inv: "db_inv fk st1"
    unfolding db_inv_def st1 using assms(1) ids titles fts img pos
    by (simp add: db_inv_def del: set_map map_map set_append set_filter)
  have "has_note st1 i = has_note st i"
    unfolding has_note_conv st1 by (simp add: ids del: map_map set_map)
  with inv show ?thesis by simp
qed

lemma db_inv_delete_links: "db_inv fk st \<Longrightarrow> db_inv fk (delete_links st i)"
  by (auto simp: db_inv_def delete_links_def)

lemma db_inv_delete_tags: "db_inv fk st \<Longrightarrow> db_inv fk (delete_tags st i)"
  by (auto simp: db_inv_def delete_tags_def)

lemma db_inv_tx:
  assumes "db_inv (foreign_keys e) st" and "tx e st i ls ts = Inr st'"
  shows "db_inv (foreign_keys e) st'"
proof -
  from assms(2) have ok: "(ls = [] \<and> ts = []) \<or> \<not> foreign_keys e \<or> has_note st i"
    and st': "st' = st\<lparr>links := links st @ map (Pair i) ls, tags := tags st @ map (Pair i) ts\<rparr>"
    by (simp_all add: tx_Inr)
  from ok assms(1) show ?thesis
    unfolding st' db_inv_def has_note_def by (auto simp: image_iff)
qed

lemma db_inv_upsertNote:
  assumes "db_inv (foreign_keys e) st" and "upsertNote e st ident t c = (r, st')"
  shows "db_inv (foreign_keys e) st'"
proof (cases "case ident of None \<Rightarrow> insert_note e st t c
            | Some i \<Rightarrow> if i \<noteq> 0
                then (case update_note e st i t c of Inl x \<Rightarrow> Inl x | Inr st' \<Rightarrow> Inr (i, st'))
                else insert_note e st t c")
  case (Inl x)
  with assms show ?thesis by (simp add: upsertNote_def)
next
  case (Inr p)
  obtain i st1 where p: "p = (i, st1)" by (cases p)
  from Inr p assms(1) have "db_inv (foreign_keys e) st1"
    by (auto split: option.splits if_splits sum.splits
             dest: db_inv_insert_note db_inv_update_note)
  then have st2: "db_inv (foreign_keys e) (delete_tags (delete_links st1 i) i)"
    by (simp add: db_inv_delete_links db_inv_delete_tags)
  from assms(2) Inr p st2 show ?thesis
    by (auto simp: upsertNote_def Let_def split: jsval.splits sum.splits dest: db_inv_tx)
qed

lemma db_inv_delete_notes:
  assumes "db_inv (foreign_keys e) st" and "delete_notes e st ident = (r, st')"
  shows "db_inv (foreign_keys e) st'"
proof (cases ident)
  case None
  with assms show ?thesis by (simp add: delete_notes_def)
next
  case (Some i)
  with assms(2) have st': "st' = st\<lparr>notes_tbl := filter (\<lambda>n. note_id n \<noteq> i) (notes_tbl st),
             links := filter (\<lambda>l. fst l \<noteq> i) (links st),
             tags := filter (\<lambda>l. fst l \<noteq> i) (tags st),
             notes_fts := fold notes_ad (filter (\<lambda>n. note_id n = i) (notes_tbl st)) (notes_fts st)\<rparr>"
    by (simp add: delete_notes_def Let_def delete_note_after_purge)
  have fts: "fold notes_ad (filter (\<lambda>n. note_id n = i) ns) fts = 
             (if \<exists>n \<in> set ns. note_id n = i then filter (\<lambda>d. fst d \<noteq> i) fts else fts)" for ns fts
    by (induction ns arbitrary: fts) (auto simp: notes_ad_def)
  have fk: "fst ` set (filter (\<lambda>l. fst l \<noteq> i) rows) \<subseteq>
              note_id ` set (filter (\<lambda>n. note_id n \<noteq> i) (notes_tbl st))"
    if "fst ` set rows \<subseteq> note_id ` set (notes_tbl st)" for rows :: "(int \<times> jstring) list"
  proof
    fix a assume "a \<in> fst ` set (filter (\<lambda>l. fst l \<noteq> i) rows)"
    then have "a \<in> fst ` set rows" and "a \<noteq> i" by auto
    with that obtain n where "n \<in> set (notes_tbl st)" "a = note_id n" by blast
    with \<open>a \<noteq> i\<close> show "a \<in> note_id ` set (filter (\<lambda>n. note_id n \<noteq> i) (notes_tbl st))"
      by auto
  qed
  have docs: "set (if \<exists>n \<in> set (notes_tbl st). note_id n = i
                   then filter (\<lambda>d. fst d \<noteq> i) (notes_fts st) else notes_fts st) =
              (\<lambda>n. (note_id n, title n, content n)) `
                set (filter (\<lambda>n. note_id n \<noteq> i) (notes_tbl st))"
    using assms(1) by (auto simp: db_inv_def image_iff)
  have pos: "\<forall>n \<in> set (filter (\<lambda>n. note_id n \<noteq> i) (notes_tbl st)). 0 < note_id n"
    using assms(1) by (simp add: db_inv_def)
  from assms(1) fk docs pos show ?thesis
    unfolding st' db_inv_def fts
    by (simp add: distinct_map_filter del: set_filter)
qed

lemma db_inv_post_notes:
  "db_inv (foreign_keys e) st \<Longrightarrow> post_notes e st t c = (r, st') \<Longrightarrow> db_inv (foreign_keys e) st'"
  by (auto simp: post_notes_def split: prod.splits sum.splits dest: db_inv_upsertNote)

lemma db_inv_put_notes:
  "db_inv (foreign_keys e) st \<Longrightarrow> put_notes e st ident t c = (r, st') \<Longrightarrow> db_inv (foreign_keys e) st'"
  by (auto simp: put_notes_def split: option.splits prod.splits sum.splits dest: db_inv_upsertNote)

lemma db_inv_alpha_db: "db_inv fk alpha_db"
  by (simp add: db_inv_def alpha_db_def alpha_note_def)

section \<open>Claims about writes and deletes\<close>

lemma fold_notes_ad:
  "fold notes_ad (filter (\<lambda>n. note_id n = i) ns) fts =
     (if \<exists>n \<in> set ns. note_id n = i then filter (\<lambda>d. fst d \<noteq> i) fts else fts)"
  by (induction ns arbitrary: fts) (auto simp: notes_ad_def)

lemma count_by_id:
  "distinct (map note_id ns) \<Longrightarrow>
   length (filter (\<lambda>n. note_id n = i) ns) = (if \<exists>n \<in> set ns. note_id n = i then 1 else 0)"
proof (induction ns)
  case Nil
  then show ?case by simp
next
  case (Cons a ns)
  then have "note_id a \<notin> note_id ` set ns" by simp
  then have "\<forall>n \<in> set ns. note_id n \<noteq> note_id a" by (metis imageI)
  with Cons show ?case by (auto simp: filter_empty_conv)
qed

text \<open>
  C7. For every id, in a database that satisfies the invariant, the route that deletes
  a note removes the note row with that id, every link and tag row carrying the id and
  the search document of that row id, leaves every other row as it is, and answers with
  the number of note rows removed: 1 if the note existed, and 0, without an error, if it
  did not.
\<close>

theorem delete_removes_note_and_derived_rows:
  assumes "db_inv (foreign_keys e) st"
  shows "delete_notes e st (Some i) =
           ((200, Deleted (if has_note st i then 1 else 0)),
            st\<lparr>notes_tbl := filter (\<lambda>n. note_id n \<noteq> i) (notes_tbl st),
               links := filter (\<lambda>l. fst l \<noteq> i) (links st),
               tags := filter (\<lambda>l. fst l \<noteq> i) (tags st),
               notes_fts := filter (\<lambda>d. fst d \<noteq> i) (notes_fts st)\<rparr>)"
proof -
  from assms have dist: "distinct (map note_id (notes_tbl st))"
    and docs: "fst ` set (notes_fts st) = note_id ` set (notes_tbl st)"
    by (auto simp: db_inv_def image_iff)
  have "filter (\<lambda>d. fst d \<noteq> i) (notes_fts st) = notes_fts st" if "\<not> has_note st i"
  proof -
    from that have "i \<notin> note_id ` set (notes_tbl st)" by (auto simp: has_note_def)
    with docs have "i \<notin> fst ` set (notes_fts st)" by simp
    then have "\<forall>d \<in> set (notes_fts st). fst d \<noteq> i" by (metis imageI)
    then show ?thesis by (simp add: filter_id_conv)
  qed
  then show ?thesis
    by (simp add: delete_notes_def Let_def delete_note_after_purge fold_notes_ad
                  count_by_id [OF dist] has_note_def)
qed

theorem delete_removes_note_and_derived_rows_witness:
  "delete_notes (env0 True) alpha_db (Some 1) = ((200, Deleted 1), empty_db) \<and>
   delete_notes (env0 True) alpha_db (Some 2) = ((200, Deleted 0), alpha_db)"
  using delete_removes_note_and_derived_rows [OF db_inv_alpha_db, of "env0 True" 1]
        delete_removes_note_and_derived_rows [OF db_inv_alpha_db, of "env0 True" 2]
  by (simp add: has_note_def alpha_db_def alpha_note_def empty_db_def)

text \<open>
  C5. For every existing note with title \<open>T\<close>, creating a note with the same title fails
  with a validation error (status 400, raised by the UNIQUE constraint, or by NOT NULL
  when the content is \<open>null\<close>) and leaves the database as it was: no new row is created.
\<close>

theorem duplicate_title_is_rejected:
  assumes "\<exists>n \<in> set (notes_tbl st). title n = T"
  shows "post_notes e st (JString T) c =
           ((400, ErrorJson (if c = JNull then NotNullConstraint else UniqueConstraint)), st)"
  using assms
  by (cases c) (auto simp: post_notes_def upsertNote_def insert_note_def)

theorem duplicate_title_is_rejected_witness:
  "post_notes (env0 True) alpha_db (JString (js ''Alpha'')) (JString (js ''again'')) =
     ((400, ErrorJson UniqueConstraint), alpha_db)"
proof -
  have "\<exists>n \<in> set (notes_tbl alpha_db). title n = js ''Alpha''"
    by (simp add: alpha_db_def alpha_note_def)
  from duplicate_title_is_rejected [OF this, of "env0 True" "JString (js ''again'')"]
  show ?thesis by simp
qed

lemma has_note_delete_links [simp]: "has_note (delete_links st i) j = has_note st j"
  and has_note_delete_tags [simp]: "has_note (delete_tags st i) j = has_note st j"
  by (simp_all add: has_note_def delete_links_def delete_tags_def)

lemma select_note_None: "select_note st i = None \<longleftrightarrow> \<not> has_note st i"
  by (auto simp: select_note_def has_note_def find_None_iff)

lemma tx_has_note:
  "has_note st i \<Longrightarrow>
   tx e st i ls ts = Inr (st\<lparr>links := links st @ map (Pair i) ls, tags := tags st @ map (Pair i) ts\<rparr>)"
  by (simp add: tx_Inr)

text \<open>A write whose content is a string either returns or leaves the database as it
  was: in a database that satisfies the invariant, the only statement that can fail
  after the note is written is an insert for a note id that does not exist, and then
  nothing had been written.\<close>

lemma failed_string_write_changes_nothing:
  assumes "db_inv (foreign_keys e) st" and "upsertNote e st ident t (JString s) = (Inl x, st')"
  shows "st' = st"
proof (cases "case ident of None \<Rightarrow> insert_note e st t (JString s)
            | Some i \<Rightarrow> if i \<noteq> 0
                then (case update_note e st i t (JString s) of Inl x \<Rightarrow> Inl x | Inr st' \<Rightarrow> Inr (i, st'))
                else insert_note e st t (JString s)")
  case (Inl y)
  with assms(2) show ?thesis by (simp add: upsertNote_def)
next
  case (Inr p)
  obtain i st1 where p: "p = (i, st1)" by (cases p)
  let ?st2 = "delete_tags (delete_links st1 i) i"
  from assms(2) Inr p obtain y where
    failed: "tx e ?st2 i (extractLinks s) (extractTags (letter e) s) = Inl y" and st': "st' = ?st2"
    by (auto simp: upsertNote_def Let_def split: sum.splits)
  have no: "\<not> has_note st1 i"
    using failed tx_has_note [of ?st2 i e] by auto
  have not_ins: "insert_note e st t (JString s) \<noteq> Inr (i, st1)"
    using db_inv_insert_note [OF assms(1), of e t "JString s" i st1] no by auto
  with Inr p have ident: "ident = Some i" and upd1: "update_note e st i t (JString s) = Inr st1"
    by (auto split: option.splits if_splits sum.splits)
  from db_inv_update_note [OF assms(1) upd1] no have "select_note st i = None"
    by (simp add: select_note_None)
  with upd1 ident have upd: "select_note st i = None" "st1 = st" "ident = Some i"
    by (simp_all add: update_note_def)
  from failed have "foreign_keys e"
    using tx_Inr [of e ?st2 i "extractLinks s" "extractTags (letter e) s"] by auto
  with assms(1) have sub: "fst ` set (links st) \<subseteq> note_id ` set (notes_tbl st)"
    "fst ` set (tags st) \<subseteq> note_id ` set (notes_tbl st)"
    by (simp_all add: db_inv_def)
  from no upd have "i \<notin> note_id ` set (notes_tbl st)" by (auto simp: has_note_def)
  with sub have "i \<notin> fst ` set (links st)" "i \<notin> fst ` set (tags st)" by blast+
  then have "\<forall>l \<in> set (links st). fst l \<noteq> i" "\<forall>l \<in> set (tags st). fst l \<noteq> i"
    by (metis imageI)+
  then have "?st2 = st"
    using upd by (simp add: delete_links_def delete_tags_def filter_id_conv)
  with st' show ?thesis by simp
qed

text \<open>
  C2 asks that a create or update that fails modifies neither the note row, nor the link
  and tag rows, nor the search document. The write and the rebuild are not one atomic
  unit: the statement that writes the note and the two clean-up statements commit on
  their own, and only the inserts run in the transaction. When the content is the JSON
  number 5, the create writes the note row and its search document, then
  \<open>extractLinks\<close> throws and the route answers 400: the call has failed and the note is
  there. The update of the note of \<open>alpha_db\<close> fails the same way after the note row
  and its search document have been rewritten and its link and tag rows deleted.
\<close>

theorem failed_write_is_not_rolled_back:
  "post_notes e empty_db (JString (js ''T'')) (JNumber (js ''5.0'')) =
     ((400, ErrorJson TypeError),
      \<lparr>notes_tbl = [\<lparr>note_id = 1, title = js ''T'', content = js ''5.0'',
                      created_at = now e, updated_at = now e\<rparr>],
       links = [], tags = [], notes_fts = [(1, js ''T'', js ''5.0'')]\<rparr>) \<and>
   put_notes e alpha_db (Some 1) (JString (js ''Alpha'')) (JNumber (js ''5.0'')) =
     ((400, ErrorJson TypeError),
      \<lparr>notes_tbl = [alpha_note\<lparr>content := js ''5.0'', updated_at := now e\<rparr>],
       links = [], tags = [], notes_fts = [(1, js ''Alpha'', js ''5.0'')]\<rparr>)"
  by (simp add: post_notes_def put_notes_def upsertNote_def insert_note_def update_note_def
        select_note_def next_rowid_def notes_ai_def notes_au_def notes_ad_def
        delete_links_def delete_tags_def empty_db_def alpha_db_def alpha_note_def)

text \<open>
  C3 asks that an update of an id that no note has fails with a not-found error and
  changes nothing. The route has no check that the note exists. With only note 1 in the
  database, the update of id 7 is answered with status 200 and no note; the update of
  id 0 takes the branch of a create (\<open>if (id)\<close> is false for 0), inserts note 2 and is
  answered with status 200; and, where foreign keys are not enforced, the update of
  id 7 with a content that holds a link inserts a link row for the missing note.
\<close>

theorem update_of_missing_id_is_not_rejected:
  "put_notes e alpha_db (Some 7) (JString (js ''T'')) (JString (js ''hello'')) =
     ((200, NoteJson None), alpha_db) \<and>
   put_notes e alpha_db (Some 0) (JString (js ''T'')) (JString []) =
     ((200, NoteJson (Some \<lparr>note_id = 2, title = js ''T'', content = [],
                            created_at = now e, updated_at = now e\<rparr>)),
      alpha_db\<lparr>notes_tbl := [alpha_note, \<lparr>note_id = 2, title = js ''T'', content = [],
                                            created_at = now e, updated_at = now e\<rparr>],
               notes_fts := [(1, js ''Alpha'', js ''[[Old]] #old''), (2, js ''T'', [])]\<rparr>) \<and>
   put_notes (env0 False) alpha_db (Some 7) (JString (js ''T'')) (JString (js ''[[X]]'')) =
     ((200, NoteJson None), alpha_db\<lparr>links := [(1, js ''Old''), (7, js ''X'')]\<rparr>)"
  by (simp add: store_defs parser_defs)

text \<open>
  C4 as stated fails: a create with the empty string as title succeeds. On the empty
  database it is answered with status 201 and the note with the empty title is stored.
\<close>

theorem empty_title_is_accepted:
  "post_notes (env0 True) empty_db (JString []) (JString (js ''text'')) =
     ((201, NoteJson (Some \<lparr>note_id = 1, title = [], content = js ''text'',
                            created_at = now (env0 True), updated_at = now (env0 True)\<rparr>)),
      \<lparr>notes_tbl = [\<lparr>note_id = 1, title = [], content = js ''text'',
                      created_at = now (env0 True), updated_at = now (env0 True)\<rparr>],
       links = [], tags = [], notes_fts = [(1, [], js ''text'')]\<rparr>)"
  by (simp add: store_defs parser_defs)

text \<open>
  C4, amended. For every content, a create with a missing title (absent or \<open>null\<close>)
  fails with a validation error (status 400, NOT NULL) and leaves the database as it
  was. The empty string is a title like any other: a create with the empty title and a
  string content is answered with 201, unless a note with the empty title exists
  already, and then with 400.
\<close>

theorem create_without_title_fails:
  "(t = JUndefined \<or> t = JNull \<longrightarrow>
      post_notes e st t c = ((400, ErrorJson NotNullConstraint), st)) \<and>
   fst (fst (post_notes e st (JString []) (JString s))) =
     (if \<exists>n \<in> set (notes_tbl st). title n = [] then 400 else 201)"
proof -
  have missing: "post_notes e st t c = ((400, ErrorJson NotNullConstraint), st)"
    if "t = JUndefined \<or> t = JNull"
    using that by (auto simp: post_notes_def upsertNote_def insert_note_def)
  have dup: "fst (fst (post_notes e st (JString []) (JString s))) = 400"
    if "\<exists>n \<in> set (notes_tbl st). title n = []"
    using that by (simp add: post_notes_def upsertNote_def insert_note_def)
  have fresh: "fst (fst (post_notes e st (JString []) (JString s))) = 201"
    if "\<not> (\<exists>n \<in> set (notes_tbl st). title n = [])"
  proof -
    from that obtain i st1 where ins: "insert_note e st (JString []) (JString s) = Inr (i, st1)"
      and "has_note st1 i"
      by (auto simp: insert_note_def Let_def has_note_def)
    then show ?thesis
      by (simp add: post_notes_def upsertNote_def Let_def tx_has_note)
  qed
  from missing dup fresh show ?thesis by auto
qed

theorem create_without_title_fails_witness:
  "post_notes (env0 True) alpha_db JNull (JString (js ''text'')) =
     ((400, ErrorJson NotNullConstraint), alpha_db) \<and>
   fst (fst (post_notes (env0 True) alpha_db (JString []) (JString (js ''text'')))) = 201"
  using create_without_title_fails [of JNull "env0 True" alpha_db "JString (js ''text'')" "js ''text''"]
  by (simp add: alpha_db_def alpha_note_def)

section \<open>Claims about the context assembler\<close>

text \<open>A sequence of context entries with later entries of an id already seen dropped.\<close>

function first_by_id :: "ctx_note list \<Rightarrow> ctx_note list" where
  "first_by_id [] = []"
| "first_by_id (n # ns) = n # first_by_id (filter (\<lambda>m. fst m \<noteq> fst n) ns)"
  by pat_completeness auto
termination
  by (relation "measure length") (auto simp: less_Suc_eq_le)

lemma first_by_id_ids: "fst ` set (first_by_id ns) = fst ` set ns"
proof (induction ns rule: first_by_id.induct)
  case 1
  then show ?case by simp
next
  case (2 n ns)
  then show ?case by (auto simp: image_iff) 
qed

lemma first_by_id_distinct: "distinct (map fst (first_by_id ns))"
proof (induction ns rule: first_by_id.induct)
  case 1
  then show ?case by simp
next
  case (2 n ns)
  have "fst n \<notin> fst ` set (filter (\<lambda>m. fst m \<noteq> fst n) ns)" by auto
  with 2 show ?case by (simp add: first_by_id_ids del: set_filter)
qed

lemma foldl_pushNote:
  "foldl pushNote (ctx, used) (map Some rows) =
     (ctx @ first_by_id (filter (\<lambda>n. fst n \<notin> set used) rows),
      used @ map fst (first_by_id (filter (\<lambda>n. fst n \<notin> set used) rows)))"
proof (induction rows arbitrary: ctx used)
  case Nil
  then show ?case by simp
next
  case (Cons n rows)
  show ?case
  proof (cases "fst n \<in> set used")
    case True
    with Cons show ?thesis by simp
  next
    case False
    have "filter (\<lambda>m. fst m \<notin> set (used @ [fst n])) rows =
          filter (\<lambda>m. fst m \<noteq> fst n) (filter (\<lambda>m. fst m \<notin> set used) rows)"
      by (induction rows) auto
    with False Cons show ?thesis by (simp add: set_add_def)
  qed
qed

text \<open>The anchor as the route reads it: the note of \<open>noteId\<close>, when \<open>noteId\<close> is given,
  is not 0 and is the id of a note.\<close>

definition anchor_note :: "db \<Rightarrow> int option \<Rightarrow> ctx_note list" where
  "anchor_note st noteId =
     (case noteId of
        None \<Rightarrow> []
      | Some i \<Rightarrow>
          (case select_note st i of
             None \<Rightarrow> []
           | Some n \<Rightarrow> if i = 0 then [] else [(note_id n, title n, content n)]))"

text \<open>The rows of the one query the route runs after the anchor, or \<open>None\<close> when the
  statement of the \<open>catch\<close> block raises.\<close>

definition context_rows :: "env \<Rightarrow> db \<Rightarrow> jstring \<Rightarrow> int option \<Rightarrow> bool \<Rightarrow> ctx_note list option" where
  "context_rows e st prompt topK includeAll =
     (let k = topK_or_default topK; q = strip_quotes prompt in
      if includeAll then Some (recent_notes st)
      else (case fts_notes e st q k of
              Some rows \<Rightarrow> Some rows
            | None \<Rightarrow> like_notes st (37 # q @ [37]) k))"

text \<open>A call with a prompt that is not blank: status 500 when that statement raises, else
  the anchor, then the rows of the query, later entries of an id already there
  dropped.\<close>

lemma chat_context_eq:
  "trim prompt \<noteq> [] \<Longrightarrow>
   chat_context e st prompt noteId topK includeAll =
     (case context_rows e st prompt topK includeAll of
        None \<Rightarrow> Inl (500, AIRouteFailure)
      | Some rows \<Rightarrow> Inr (first_by_id (anchor_note st noteId @ rows)))"
  by (auto simp: chat_context_def context_rows_def anchor_note_def Let_def foldl_pushNote
                 set_add_def
           split: option.splits)

lemma chat_context_Inr:
  assumes "chat_context e st prompt noteId topK includeAll = Inr ctx"
  obtains rows where "context_rows e st prompt topK includeAll = Some rows"
    and "ctx = first_by_id (anchor_note st noteId @ rows)"
proof -
  from assms have "trim prompt \<noteq> []" by (auto simp: chat_context_def)
  from chat_context_eq [OF this, of e st noteId topK includeAll] assms that
  show ?thesis by (cases "context_rows e st prompt topK includeAll") auto
qed

text \<open>When the query returns rows: always with \<open>includeAll\<close>; otherwise with a limit in
  range, if the full-text statement does not raise or the pattern of the fall-back is
  short enough.\<close>

lemma fts_notes_Some:
  "limit_ok k \<Longrightarrow> fts5_match e q (notes_fts st) \<noteq> None \<Longrightarrow> \<exists>rows. fts_notes e st q k = Some rows"
  by (auto simp: fts_notes_def sql_limit_def)

lemma like_notes_Some:
  "limit_ok k \<Longrightarrow> utf8_bytes pat \<le> max_like_pattern_length \<Longrightarrow>
   like_notes st pat k =
     Some (limit_rows k
             (map (\<lambda>n. (note_id n, title n, take 4000 (cstr (content n))))
                (filter (\<lambda>n. sql_like (cstr pat) (cstr (title n))) (notes_tbl st))))"
  by (simp add: like_notes_def sql_limit_def)

lemma context_rows_Some:
  assumes "includeAll \<or>
           limit_ok (topK_or_default topK) \<and>
           (fts5_match e (strip_quotes prompt) (notes_fts st) \<noteq> None \<or>
            utf8_bytes (37 # strip_quotes prompt @ [37]) \<le> max_like_pattern_length)"
  shows "\<exists>rows. context_rows e st prompt topK includeAll = Some rows"
proof (cases includeAll)
  case True
  then show ?thesis by (simp add: context_rows_def)
next
  case False
  with assms have ok: "limit_ok (topK_or_default topK)"
    and or: "fts5_match e (strip_quotes prompt) (notes_fts st) \<noteq> None \<or>
             utf8_bytes (37 # strip_quotes prompt @ [37]) \<le> max_like_pattern_length"
    by simp_all
  show ?thesis
  proof (cases "fts_notes e st (strip_quotes prompt) (topK_or_default topK)")
    case (Some rows)
    with False show ?thesis by (simp add: context_rows_def)
  next
    case None
    with fts_notes_Some [OF ok] or
    have "utf8_bytes (37 # strip_quotes prompt @ [37]) \<le> max_like_pattern_length" by force
    from like_notes_Some [OF ok this] None False show ?thesis
      by (simp add: context_rows_def)
  qed
qed

text \<open>A database with two notes; the title of the second is not a valid FTS5 query.\<close>

definition cpp_note :: note_row where
  "cpp_note = \<lparr>note_id = 2, title = js ''C++ notes'', content = js ''templates'',
                created_at = js ''2024-04-02 09:00:00'', updated_at = js ''2024-04-02 09:00:00''\<rparr>"

definition two_db :: db where
  "two_db = alpha_db\<lparr>notes_tbl := [alpha_note, cpp_note],
                     notes_fts := [(1, js ''Alpha'', js ''[[Old]] #old''),
                                   (2, js ''C++ notes'', js ''templates'')]\<rparr>"

lemma db_inv_two_db: "db_inv fk two_db"
  by (simp add: db_inv_def two_db_def alpha_db_def alpha_note_def cpp_note_def)

text \<open>
  C8. For every call of the context assembler that returns a context, in a database
  that satisfies the invariant, whose anchor \<open>noteId\<close> is the id of an existing note:
  that note is the first entry of the context, its id does not occur again, and no id
  occurs twice among the other entries, so the first occurrence of an id wins and
  later hits are dropped, whichever of the queries supplied them. The call does return
  a context when the prompt is not blank and either \<open>includeAll\<close> is set, or \<open>topK\<close> is
  in the range of \<open>LIMIT\<close> and the full-text statement does not raise or the pattern of
  the fall-back is at most 50000 bytes long; otherwise the statement of the \<open>catch\<close>
  block can raise, and the route then answers with status 500 and no context.
\<close>

theorem anchor_is_first_and_ids_are_unique:
  assumes "db_inv fk st" and "select_note st i = Some n"
  shows "(\<forall>ctx. chat_context e st prompt (Some i) topK includeAll = Inr ctx \<longrightarrow>
            (\<exists>rest. ctx = (i, title n, content n) # rest \<and>
                    i \<notin> fst ` set rest \<and> distinct (map fst rest))) \<and>
         (trim prompt \<noteq> [] \<and>
          (includeAll \<or>
           limit_ok (topK_or_default topK) \<and>
           (fts5_match e (strip_quotes prompt) (notes_fts st) \<noteq> None \<or>
            utf8_bytes (37 # strip_quotes prompt @ [37]) \<le> max_like_pattern_length)) \<longrightarrow>
          (\<exists>ctx. chat_context e st prompt (Some i) topK includeAll = Inr ctx))"
proof (intro conjI allI impI)
  fix ctx
  assume run: "chat_context e st prompt (Some i) topK includeAll = Inr ctx"
  from assms(2) have n: "n \<in> set (notes_tbl st)" "note_id n = i"
    by (auto simp: select_note_def find_Some_iff)
  with assms(1) have "i \<noteq> 0" by (auto simp: db_inv_def)
  with assms(2) n have anchor: "anchor_note st (Some i) = [(i, title n, content n)]"
    by (simp add: anchor_note_def)
  from run obtain rows where "ctx = first_by_id (anchor_note st (Some i) @ rows)"
    by (rule chat_context_Inr)
  with anchor have ctx: "ctx = (i, title n, content n) # first_by_id (filter (\<lambda>m. fst m \<noteq> i) rows)"
    by simp
  have "i \<notin> fst ` set (first_by_id (filter (\<lambda>m. fst m \<noteq> i) rows))"
    by (simp add: first_by_id_ids del: set_filter) auto
  moreover have "distinct (map fst (first_by_id (filter (\<lambda>m. fst m \<noteq> i) rows)))"
    by (rule first_by_id_distinct)
  ultimately show "\<exists>rest. ctx = (i, title n, content n) # rest \<and>
                    i \<notin> fst ` set rest \<and> distinct (map fst rest)"
    using ctx by blast
next
  assume a: "trim prompt \<noteq> [] \<and>
          (includeAll \<or>
           limit_ok (topK_or_default topK) \<and>
           (fts5_match e (strip_quotes prompt) (notes_fts st) \<noteq> None \<or>
            utf8_bytes (37 # strip_quotes prompt @ [37]) \<le> max_like_pattern_length))"
  then obtain rows where "context_rows e st prompt topK includeAll = Some rows"
    using context_rows_Some [of includeAll topK e prompt st] by blast
  with a show "\<exists>ctx. chat_context e st prompt (Some i) topK includeAll = Inr ctx"
    by (simp add: chat_context_eq)
qed

theorem anchor_is_first_and_ids_are_unique_witness:
  "chat_context ((env0 True)\<lparr>fts5_match := \<lambda>q docs. Some [2, 1]\<rparr>) two_db
       (js ''alpha'') (Some 1) (Some 3) False =
     Inr [(1, js ''Alpha'', js ''[[Old]] #old''), (2, js ''C++ notes'', js ''templates'')]"
proof -
  let ?e = "(env0 True)\<lparr>fts5_match := \<lambda>q docs. Some [2, 1]\<rparr>"
  have sel: "select_note two_db 1 = Some alpha_note"
    by (simp add: select_note_def two_db_def alpha_note_def)
  have returns: "trim (js ''alpha'') \<noteq> [] \<and>
      (False \<or>
       limit_ok (topK_or_default (Some 3)) \<and>
       (fts5_match ?e (strip_quotes (js ''alpha'')) (notes_fts two_db) \<noteq> None \<or>
        utf8_bytes (37 # strip_quotes (js ''alpha'') @ [37]) \<le> max_like_pattern_length))"
    by (simp add: trim_def js_space_def line_terminator_def limit_ok_def topK_or_default_def)
  note inst = anchor_is_first_and_ids_are_unique [OF db_inv_two_db sel, of ?e "js ''alpha''" "Some 3" False]
  from inst returns obtain ctx where
    run: "chat_context ?e two_db (js ''alpha'') (Some 1) (Some 3) False = Inr ctx"
    by blast
  with inst obtain rest where ctx: "ctx = (1, title alpha_note, content alpha_note) # rest"
    and rest: "1 \<notin> fst ` set rest" "distinct (map fst rest)"
    by blast
  have "chat_context ?e two_db (js ''alpha'') (Some 1) (Some 3) False =
          Inr [(1, js ''Alpha'', js ''[[Old]] #old''), (2, js ''C++ notes'', js ''templates'')]"
    by (simp add: chat_context_def fts_notes_def sql_limit_def limit_ok_def limit_rows_def
          topK_or_default_def strip_quotes_def cstr_def select_note_def set_add_def
          two_db_def alpha_db_def alpha_note_def cpp_note_def env0_def trim_def js_space_def
          line_terminator_def Let_def)
  with run ctx rest show ?thesis by simp
qed

subsection \<open>The fall-back search\<close>

lemma sql_like_percent: "sql_like [37] t"
  by (induction t) auto

lemma sql_like_prefix:
  "\<forall>p \<in> set q. p \<noteq> 37 \<and> p \<noteq> 95 \<Longrightarrow>
   sql_like (q @ [37]) t \<longleftrightarrow> (\<exists>w v. t = w @ v \<and> map like_fold w = map like_fold q)"
proof (induction q arbitrary: t)
  case Nil
  then show ?case by (simp add: sql_like_percent)
next
  case (Cons p q)
  from Cons.prems have p: "p \<noteq> 37" "p \<noteq> 95" and q: "\<forall>p \<in> set q. p \<noteq> 37 \<and> p \<noteq> 95"
    by simp_all
  show ?case
  proof (cases t)
    case Nil
    have "\<not> sql_like ((p # q) @ [37]) []" using p by simp
    moreover have "\<not> (\<exists>w v. [] = w @ v \<and> map like_fold w = map like_fold (p # q))" by simp
    ultimately show ?thesis unfolding Nil by blast
  next
    case t: (Cons c cs)
    have lhs: "sql_like ((p # q) @ [37]) (c # cs) \<longleftrightarrow>
               like_fold p = like_fold c \<and> sql_like (q @ [37]) cs"
      using p by simp
    have ih: "sql_like (q @ [37]) cs \<longleftrightarrow> (\<exists>w v. cs = w @ v \<and> map like_fold w = map like_fold q)"
      by (rule Cons.IH [OF q])
    have rhs: "(\<exists>w v. c # cs = w @ v \<and> map like_fold w = map like_fold (p # q)) \<longleftrightarrow>
          (like_fold p = like_fold c \<and> (\<exists>w v. cs = w @ v \<and> map like_fold w = map like_fold q))"
      (is "?l \<longleftrightarrow> ?r")
    proof
      assume ?l
      then obtain w v where wv: "c # cs = w @ v" "map like_fold w = map like_fold (p # q)"
        by blast
      from wv(2) obtain a w' where w: "w = a # w'" by (cases w) simp_all
      from wv(1) w have "a = c" "cs = w' @ v" by simp_all
      moreover from wv(2) w have "like_fold a = like_fold p" "map like_fold w' = map like_fold q"
        by simp_all
      ultimately show ?r by metis
    next
      assume ?r
      then obtain w v where "cs = w @ v" "map like_fold w = map like_fold q"
        and "like_fold p = like_fold c" by blast
      then have "c # cs = (c # w) @ v \<and> map like_fold (c # w) = map like_fold (p # q)"
        by simp
      then show ?l by blast
    qed
    show ?thesis unfolding t lhs ih rhs ..
  qed
qed

lemma sql_like_suffix: "sql_like (37 # ps) t \<longleftrightarrow> (\<exists>u v. t = u @ v \<and> sql_like ps v)"
proof (induction t)
  case Nil
  then show ?case by simp
next
  case (Cons c cs)
  have "(\<exists>u v. c # cs = u @ v \<and> sql_like ps v) \<longleftrightarrow>
        (sql_like ps (c # cs) \<or> (\<exists>u v. cs = u @ v \<and> sql_like ps v))"
    (is "?l \<longleftrightarrow> ?r")
  proof
    assume ?l
    then obtain u v where uv: "c # cs = u @ v" "sql_like ps v" by blast
    show ?r
    proof (cases u)
      case Nil
      with uv show ?thesis by simp
    next
      case (Cons a u')
      with uv have "cs = u' @ v" by simp
      with uv(2) show ?thesis by blast
    qed
  next
    assume ?r
    then show ?l
    proof
      assume "sql_like ps (c # cs)"
      then have "c # cs = [] @ (c # cs) \<and> sql_like ps (c # cs)" by simp
      then show ?l by blast
    next
      assume "\<exists>u v. cs = u @ v \<and> sql_like ps v"
      then obtain u v where "cs = u @ v" "sql_like ps v" by blast
      then have "c # cs = (c # u) @ v \<and> sql_like ps v" by simp
      then show ?l by blast
    qed
  qed
  with Cons show ?case by simp
qed

text \<open>For a query without the wild cards \<open>%\<close> and \<open>_\<close>, the pattern \<open>'%'+q+'%'\<close>
  matches exactly the titles that contain the query, letters \<open>a\<close> to \<open>z\<close> compared
  without regard to case.\<close>

lemma sql_like_substring:
  assumes "\<forall>p \<in> set q. p \<noteq> 37 \<and> p \<noteq> 95"
  shows "sql_like (37 # q @ [37]) t \<longleftrightarrow>
           (\<exists>u w v. t = u @ w @ v \<and> map like_fold w = map like_fold q)"
proof -
  have "sql_like (37 # q @ [37]) t \<longleftrightarrow> (\<exists>u v. t = u @ v \<and> sql_like (q @ [37]) v)"
    by (rule sql_like_suffix)
  also have "\<dots> \<longleftrightarrow> (\<exists>u v. t = u @ v \<and> (\<exists>w v'. v = w @ v' \<and> map like_fold w = map like_fold q))"
    by (simp only: sql_like_prefix [OF assms])
  also have "\<dots> \<longleftrightarrow> (\<exists>u w v. t = u @ w @ v \<and> map like_fold w = map like_fold q)"
    by blast
  finally show ?thesis .
qed

lemma cstr_id: "0 \<notin> set s \<Longrightarrow> cstr s = s"
  by (induction s) (auto simp: cstr_def)

text \<open>The fall-back statement raises, and the route answers with status 500, when the
  limit is out of range, and when the pattern is too long while there is a note to
  apply it to and the limit is not 0.\<close>

lemma limit_out_of_range_raises:
  assumes "trim prompt \<noteq> []" and "\<not> limit_ok (topK_or_default topK)"
  shows "chat_context e st prompt noteId topK False = Inl (500, AIRouteFailure)"
  using assms
  by (simp add: chat_context_eq context_rows_def fts_notes_def like_notes_def Let_def)

lemma long_pattern_raises:
  assumes "trim prompt \<noteq> []"
    and "fts5_match e (strip_quotes prompt) (notes_fts st) = None"
    and "topK_or_default topK \<noteq> 0" and "notes_tbl st \<noteq> []"
    and "max_like_pattern_length < utf8_bytes (37 # strip_quotes prompt @ [37])"
  shows "chat_context e st prompt noteId topK False = Inl (500, AIRouteFailure)"
  using assms
  by (simp add: chat_context_eq context_rows_def fts_notes_def like_notes_def Let_def)

text \<open>A prompt of 50000 question marks, which is no FTS5 query: status 500.\<close>

lemma long_prompt_answers_500:
  "chat_context (env0 True) alpha_db (replicate 50000 63) None None False =
     Inl (500, AIRouteFailure)"
proof (rule long_pattern_raises)
  show "trim (replicate 50000 63) \<noteq> []"
    by (simp add: trim_def js_space_def line_terminator_def)
  show "fts5_match (env0 True) (strip_quotes (replicate 50000 63)) (notes_fts alpha_db) = None"
    by (simp add: env0_def)
  show "topK_or_default None \<noteq> 0" by (simp add: topK_or_default_def)
  show "notes_tbl alpha_db \<noteq> []" by (simp add: alpha_db_def)
  show "max_like_pattern_length < utf8_bytes (37 # strip_quotes (replicate 50000 63) @ [37])"
    by (simp add: max_like_pattern_length_def utf8_bytes_def utf8_len_def strip_quotes_def
          sum_list_replicate)
qed

text \<open>A database with one note whose title holds no \<open>%\<close>.\<close>

definition ways_db :: db where
  "ways_db = \<lparr>notes_tbl = [\<lparr>note_id = 1, title = js ''50 ways?'', content = js ''text'',
                               created_at = js ''2024-04-03 09:00:00'',
                               updated_at = js ''2024-04-03 09:00:00''\<rparr>],
               links = [], tags = [], notes_fts = [(1, js ''50 ways?'', js ''text'')]\<rparr>"

text \<open>
  C9 as stated fails where the prompt holds a wild card of \<open>LIKE\<close>: FTS5 rejects the
  query \<open>50%?\<close>, and the fall-back returns the note titled \<open>50 ways?\<close>, whose title does
  not contain the query, with or without regard to the case of letters.
\<close>

theorem like_fallback_is_not_substring_match:
  "chat_context (env0 True) ways_db (js ''50%?'') None None False =
     Inr [(1, js ''50 ways?'', js ''text'')] \<and>
   \<not> (\<exists>u w v. js ''50 ways?'' = u @ w @ v \<and> map like_fold w = map like_fold (js ''50%?''))"
proof -
  have "chat_context (env0 True) ways_db (js ''50%?'') None None False =
          Inr [(1, js ''50 ways?'', js ''text'')]"
    by (simp add: chat_context_def fts_notes_def like_notes_def sql_limit_def limit_ok_def
          limit_rows_def topK_or_default_def strip_quotes_def cstr_def utf8_bytes_def
          utf8_len_def max_like_pattern_length_def like_fold_def set_add_def
          ways_db_def env0_def trim_def js_space_def line_terminator_def Let_def)
  moreover have False
    if "js ''50 ways?'' = u @ w @ v" and "map like_fold w = map like_fold (js ''50%?'')"
    for u w v
  proof -
    from that(2) have "37 \<in> set (map like_fold w)" by (simp add: like_fold_def)
    also from that(1) have "set (map like_fold w) \<subseteq> set (map like_fold (js ''50 ways?''))"
      by (metis set_append set_map image_mono sup_ge1 sup_ge2 subset_trans)
    finally show False by (simp add: like_fold_def)
  qed
  ultimately show ?thesis by blast
qed

text \<open>
  C9, amended. For every prompt (not blank) whose full-text query, quote characters
  stripped, makes the FTS5 engine raise, when \<open>topK\<close> (5 if absent) is in the range of
  \<open>LIMIT\<close>, strictly between \<open>-2^63\<close> and \<open>2^63\<close>, and the pattern \<open>'%' + q + '%'\<close> is at
  most 50000 bytes long, the context assembler does not pass the error on: it returns
  a context, which is the anchor (if any) followed by the first \<open>topK\<close> notes (all of
  them for a negative \<open>topK\<close>), in table order, whose title matches
  \<open>LIKE '%' + q + '%'\<close>, without duplicates; the context is empty when there is no
  anchor and no title matches. The match is that of \<open>LIKE\<close>: the pattern and the title
  are read up to their first character U+0000, and by \<open>sql_like_substring\<close> the pattern
  selects the titles that contain the query, letters \<open>a\<close> to \<open>z\<close> compared without
  regard to case, when the query holds neither \<open>%\<close> nor \<open>_\<close>; these two act as wild
  cards. Nothing is said of a longer pattern or of another \<open>topK\<close>.
\<close>

theorem search_error_falls_back_to_title_match:
  assumes "trim prompt \<noteq> []"
    and "fts5_match e (strip_quotes prompt) (notes_fts st) = None"
    and "limit_ok (topK_or_default topK)"
    and "utf8_bytes (37 # strip_quotes prompt @ [37]) \<le> max_like_pattern_length"
  shows "chat_context e st prompt noteId topK False =
           Inr (first_by_id (anchor_note st noteId @
                  limit_rows (topK_or_default topK)
                    (map (\<lambda>n. (note_id n, title n, take 4000 (cstr (content n))))
                       (filter (\<lambda>n. sql_like (cstr (37 # strip_quotes prompt @ [37]))
                                       (cstr (title n)))
                          (notes_tbl st)))))"
proof (cases "topK_or_default topK = 0")
  case True
  with assms(1,3) show ?thesis
    by (simp add: chat_context_eq context_rows_def fts_notes_def limit_rows_def Let_def)
next
  case False
  with assms(2,3) have "fts_notes e st (strip_quotes prompt) (topK_or_default topK) = None"
    by (simp add: fts_notes_def)
  with assms(1) like_notes_Some [OF assms(3,4), of st] show ?thesis
    by (simp add: chat_context_eq context_rows_def Let_def)
qed

theorem search_error_falls_back_to_title_match_witness:
  "chat_context (env0 True) two_db (js ''c++'') None None False =
     Inr [(2, js ''C++ notes'', js ''templates'')]"
proof -
  have nonblank: "trim (js ''c++'') \<noteq> []"
    by (simp add: trim_def js_space_def line_terminator_def)
  have raises: "fts5_match (env0 True) (strip_quotes (js ''c++'')) (notes_fts two_db) = None"
    by (simp add: env0_def)
  have limit: "limit_ok (topK_or_default None)"
    by (simp add: limit_ok_def topK_or_default_def)
  have short: "utf8_bytes (37 # strip_quotes (js ''c++'') @ [37]) \<le> max_like_pattern_length"
    by (simp add: utf8_bytes_def utf8_len_def strip_quotes_def max_like_pattern_length_def)
  from search_error_falls_back_to_title_match [OF nonblank raises limit short, of None]
  show ?thesis
    by (simp add: anchor_note_def limit_rows_def topK_or_default_def strip_quotes_def cstr_def
          like_fold_def two_db_def alpha_db_def alpha_note_def cpp_note_def)
qed

section \<open>Claim about the content parser\<close>

subsection \<open>Wikilinks as the specification writes them\<close>

text \<open>The specification names the two forms \<open>[[Title]]\<close> and \<open>[[Title#heading]]\<close> and
  says nothing of the characters of a title or a heading: \<open>written_wikilink s t\<close> holds
  when the text \<open>s\<close> is, as a whole, of one of the two forms, with \<open>t\<close> for the title.\<close>

definition written_wikilink :: "jstring \<Rightarrow> jstring \<Rightarrow> bool" where
  "written_wikilink s t =
     (s = 91 # 91 # t @ [93, 93] \<or> (\<exists>h. s = 91 # 91 # t @ 35 # h @ [93, 93]))"

subsection \<open>Wikilinks as the amended claim describes them\<close>

text \<open>
  The amended claim says which characters a title and a heading hold, and that the
  content is read from left to right. The definitions of this subsection say so,
  without any search.
\<close>

text \<open>A title: a non-empty run of characters other than \<open>]\<close>, \<open>|\<close> and \<open>#\<close>.\<close>

definition is_title :: "jstring \<Rightarrow> bool" where
  "is_title t = (t \<noteq> [] \<and> (\<forall>c \<in> set t. c \<noteq> 93 \<and> c \<noteq> 124 \<and> c \<noteq> 35))"

text \<open>A heading: characters other than line terminators, up to the first \<open>]]\<close> (so
  \<open>]]\<close> does not occur in the heading followed by the first closing bracket).\<close>

definition is_heading :: "jstring \<Rightarrow> bool" where
  "is_heading h = ((\<forall>c \<in> set h. \<not> line_terminator c) \<and> (\<forall>u v. h @ [93] \<noteq> u @ 93 # 93 # v))"

text \<open>\<open>wikilink s t r\<close>: the text \<open>s\<close> starts with the wikilink \<open>[[t]]\<close> or \<open>[[t#heading]]\<close>
  and goes on with \<open>r\<close>.\<close>

definition wikilink :: "jstring \<Rightarrow> jstring \<Rightarrow> jstring \<Rightarrow> bool" where
  "wikilink s t r =
     (is_title t \<and>
      (s = 91 # 91 # t @ 93 # 93 # r \<or>
       (\<exists>h. is_heading h \<and> s = 91 # 91 # t @ 35 # h @ 93 # 93 # r)))"

text \<open>\<open>wikilinks s ts\<close>: read from left to right, the text \<open>s\<close> is made of plain
  characters and of the wikilinks with the titles \<open>ts\<close>, in this order; a character is
  plain only where no wikilink starts.\<close>

inductive wikilinks :: "jstring \<Rightarrow> jstring list \<Rightarrow> bool" where
  plain_end: "wikilinks [] []"
| link: "wikilink s t r \<Longrightarrow> wikilinks r ts \<Longrightarrow> wikilinks s (t # ts)"
| plain: "\<not> (\<exists>t r. wikilink (c # cs) t r) \<Longrightarrow> wikilinks cs ts \<Longrightarrow> wikilinks (c # cs) ts"

subsection \<open>The matcher finds them\<close>

lemma close_brackets_Some: "close_brackets s = Some r \<longleftrightarrow> s = 93 # 93 # r"
  by (induction s rule: close_brackets.induct) auto

lemma is_heading_Nil: "is_heading []"
  by (simp add: is_heading_def Cons_eq_append_conv)

lemma is_heading_Cons:
  "is_heading (c # h) \<longleftrightarrow>
     \<not> line_terminator c \<and> \<not> (c = 93 \<and> hd (h @ [93]) = 93) \<and> is_heading h"
proof -
  have occ: "(\<exists>u v. (c # h) @ [93] = u @ 93 # 93 # v) \<longleftrightarrow>
        (c = 93 \<and> hd (h @ [93]) = 93) \<or> (\<exists>u v. h @ [93] = u @ 93 # 93 # v)"
    (is "?l \<longleftrightarrow> ?a \<or> ?b")
  proof
    assume ?l
    then obtain u v where uv: "(c # h) @ [93] = u @ 93 # 93 # v" by blast
    show "?a \<or> ?b"
    proof (cases u)
      case Nil
      with uv have "c = 93" "h @ [93] = 93 # v" by simp_all
      then show ?thesis by simp
    next
      case (Cons a u')
      with uv have "h @ [93] = u' @ 93 # 93 # v" by simp
      then show ?thesis by blast
    qed
  next
    assume "?a \<or> ?b"
    then show ?l
    proof
      assume a: ?a
      then obtain v where "h @ [93] = 93 # v" by (cases "h @ [93]") auto
      with a have "(c # h) @ [93] = [] @ 93 # 93 # v" by simp
      then show ?l by blast
    next
      assume ?b
      then obtain u v where "h @ [93] = u @ 93 # 93 # v" by blast
      then have "(c # h) @ [93] = (c # u) @ 93 # 93 # v" by simp
      then show ?l by blast
    qed
  qed
  show ?thesis
    unfolding is_heading_def using occ by auto
qed

lemma hd_append_close: "hd (h @ 93 # 93 # r) = hd (h @ [93])"
  by (cases h) simp_all

lemma lazy_any_close_Some:
  "lazy_any_close s = Some r \<longleftrightarrow> (\<exists>h. is_heading h \<and> s = h @ 93 # 93 # r)"
proof
  assume "lazy_any_close s = Some r"
  then show "\<exists>h. is_heading h \<and> s = h @ 93 # 93 # r"
  proof (induction s rule: lazy_any_close.induct)
    case 1
    then show ?case by simp
  next
    case (2 c cs)
    show ?case
    proof (cases "close_brackets (c # cs)")
      case (Some r')
      with 2 have "c # cs = [] @ 93 # 93 # r" by (simp add: close_brackets_Some)
      with is_heading_Nil show ?thesis by blast
    next
      case None
      with 2 obtain h where h: "is_heading h" "cs = h @ 93 # 93 # r" and c: "\<not> line_terminator c"
        by (auto split: if_splits)
      from None have "\<not> (c = 93 \<and> hd cs = 93)"
        using close_brackets_Some [of "c # cs" "tl cs"] h(2) by (cases h) auto
      with h c have "is_heading (c # h)"
        by (simp add: is_heading_Cons hd_append_close)
      moreover from h have "c # cs = (c # h) @ 93 # 93 # r" by simp
      ultimately show ?thesis by blast
    qed
  qed
next
  assume "\<exists>h. is_heading h \<and> s = h @ 93 # 93 # r"
  then obtain h where "is_heading h" "s = h @ 93 # 93 # r" by blast
  then show "lazy_any_close s = Some r"
  proof (induction h arbitrary: s)
    case Nil
    then show ?case by simp
  next
    case (Cons c h)
    then have c: "\<not> line_terminator c" "\<not> (c = 93 \<and> hd (h @ [93]) = 93)" and h: "is_heading h"
      by (simp_all add: is_heading_Cons)
    have "close_brackets (c # h @ 93 # 93 # r) = None"
    proof (cases "close_brackets (c # h @ 93 # 93 # r)")
      case None
      then show ?thesis .
    next
      case (Some r')
      then have "c = 93" "hd (h @ 93 # 93 # r) = 93"
        by (simp_all add: close_brackets_Some)
      with c(2) show ?thesis by (simp add: hd_append_close)
    qed
    with Cons c h show ?case by simp
  qed
qed


lemma heading_close_Some:
  "heading_close s = Some r \<longleftrightarrow>
     s = 93 # 93 # r \<or> (\<exists>h. is_heading h \<and> s = 35 # h @ 93 # 93 # r)"
proof (cases s)
  case Nil
  then show ?thesis by (simp add: heading_close_def)
next
  case (Cons c cs)
  show ?thesis
  proof (cases "c = 35")
    case True
    have "close_brackets (35 # cs) = None"
      by (cases "close_brackets (35 # cs)") (simp_all add: close_brackets_Some)
    then have "heading_close (35 # cs) = lazy_any_close cs"
      by (cases "lazy_any_close cs") (simp_all add: heading_close_def)
    then show ?thesis
      unfolding Cons True by (simp add: lazy_any_close_Some)
  next
    case False
    with Cons show ?thesis by (simp add: heading_close_def close_brackets_Some)
  qed
qed

lemma heading_close_title_char: "title_char c \<Longrightarrow> heading_close (c # cs) = None"
  by (cases "heading_close (c # cs)") (auto simp: heading_close_Some title_char_def)

text \<open>The greedy run with backtracking finds the one split where the run is followed by
  the end of the link: giving characters back never helps, because a character of the
  run can start neither the heading nor the closing brackets.\<close>

lemma title_more_Some:
  "title_more acc s = Some (t, r) \<longleftrightarrow>
     (\<exists>m s'. s = m @ s' \<and> (\<forall>c \<in> set m. title_char c) \<and> t = acc @ m \<and>
             heading_close s' = Some r)"
proof (induction s arbitrary: acc)
  case Nil
  then show ?case by (simp add: heading_close_def)
next
  case (Cons c cs)
  show ?case
  proof (cases "title_char c")
    case True
    have "(\<exists>m s'. c # cs = m @ s' \<and> (\<forall>c \<in> set m. title_char c) \<and> t = acc @ m \<and>
             heading_close s' = Some r) \<longleftrightarrow>
          (\<exists>m s'. cs = m @ s' \<and> (\<forall>c \<in> set m. title_char c) \<and> t = (acc @ [c]) @ m \<and>
             heading_close s' = Some r)" (is "?l \<longleftrightarrow> ?r")
    proof
      assume ?l
      then obtain m s' where ms: "c # cs = m @ s'" "\<forall>c \<in> set m. title_char c" "t = acc @ m"
        "heading_close s' = Some r" by blast
      show ?r
      proof (cases m)
        case Nil
        with ms have "heading_close (c # cs) = Some r" by simp
        with True show ?thesis by (simp add: heading_close_title_char)
      next
        case (Cons a m')
        with ms have "cs = m' @ s'" "\<forall>c \<in> set m'. title_char c" "t = (acc @ [c]) @ m'"
          by simp_all
        with ms(4) show ?thesis by blast
      qed
    next
      assume ?r
      then obtain m s' where "cs = m @ s'" "\<forall>c \<in> set m. title_char c" "t = (acc @ [c]) @ m"
        "heading_close s' = Some r" by blast
      with True have "c # cs = (c # m) @ s'" "\<forall>a \<in> set (c # m). title_char a" "t = acc @ c # m"
        by simp_all
      with \<open>heading_close s' = Some r\<close> show ?l by blast
    qed
    with True Cons [of "acc @ [c]"] show ?thesis
      by (cases "title_more (acc @ [c]) cs") (auto simp: heading_close_title_char)
  next
    case False
    have "(\<exists>m s'. c # cs = m @ s' \<and> (\<forall>c \<in> set m. title_char c) \<and> t = acc @ m \<and>
             heading_close s' = Some r) \<longleftrightarrow> (t = acc \<and> heading_close (c # cs) = Some r)"
      (is "?l \<longleftrightarrow> ?r")
    proof
      assume ?l
      then obtain m s' where ms: "c # cs = m @ s'" "\<forall>c \<in> set m. title_char c" "t = acc @ m"
        "heading_close s' = Some r" by blast
      with False have "m = []" by (cases m) auto
      with ms show ?r by simp
    next
      assume ?r
      then have "c # cs = [] @ c # cs" "\<forall>c \<in> set []. title_char c" "t = acc @ []"
        "heading_close (c # cs) = Some r" by simp_all
      then show ?l by blast
    qed
    with False show ?thesis by auto
  qed
qed

lemma is_title_conv: "is_title t \<longleftrightarrow> t \<noteq> [] \<and> (\<forall>c \<in> set t. title_char c)"
  by (simp add: is_title_def title_char_def)

text \<open>The backtracking matcher finds exactly the wikilink at the head of the input.\<close>

lemma wikilink_at_Some: "wikilink_at s = Some (t, r) \<longleftrightarrow> wikilink s t r"
proof
  assume at: "wikilink_at s = Some (t, r)"
  then obtain c cs where s: "s = 91 # 91 # c # cs" and c: "title_char c"
    and more: "title_more [c] cs = Some (t, r)"
    by (induction s rule: wikilink_at.induct) (auto split: if_splits)
  from more obtain m s' where ms: "cs = m @ s'" "\<forall>c \<in> set m. title_char c" "t = [c] @ m"
    "heading_close s' = Some r"
    unfolding title_more_Some by blast
  from c ms have "is_title t" by (simp add: is_title_conv)
  moreover from ms(4) have "s' = 93 # 93 # r \<or> (\<exists>h. is_heading h \<and> s' = 35 # h @ 93 # 93 # r)"
    by (simp add: heading_close_Some)
  ultimately show "wikilink s t r"
    unfolding wikilink_def s ms by auto
next
  assume "wikilink s t r"
  then have t: "is_title t" and
    s: "s = 91 # 91 # t @ 93 # 93 # r \<or> (\<exists>h. is_heading h \<and> s = 91 # 91 # t @ 35 # h @ 93 # 93 # r)"
    by (simp_all add: wikilink_def)
  from t obtain c m where tm: "t = c # m" "title_char c" "\<forall>c \<in> set m. title_char c"
    by (cases t) (auto simp: is_title_conv)
  from s obtain s' where s': "s = 91 # 91 # c # m @ s'" "heading_close s' = Some r"
    unfolding tm heading_close_Some by auto
  from tm s'(2) have "title_more [c] (m @ s') = Some (t, r)"
    unfolding title_more_Some by auto
  with tm(2) show "wikilink_at s = Some (t, r)"
    unfolding s'(1) by simp
qed

lemma wikilink_at_None: "wikilink_at s = None \<longleftrightarrow> \<not> (\<exists>t r. wikilink s t r)"
  using wikilink_at_Some [of s] by (cases "wikilink_at s") auto

lemma wikilinks_matches: "wikilinks s (wikilink_matches s)"
proof (induction s rule: wikilink_matches.induct)
  case (1 s)
  show ?case
  proof (cases "wikilink_at s")
    case None
    show ?thesis
    proof (cases s)
      case Nil
      with None show ?thesis by (simp add: wikilink_matches.simps plain_end)
    next
      case (Cons c cs)
      from "1.IH" None Cons have "wikilinks cs (wikilink_matches cs)" by blast
      moreover from None Cons have "\<not> (\<exists>t r. wikilink (c # cs) t r)"
        by (simp add: wikilink_at_None)
      ultimately have "wikilinks (c # cs) (wikilink_matches cs)" by (rule plain [rotated])
      with None Cons show ?thesis by (simp add: wikilink_matches.simps)
    qed
  next
    case (Some p)
    obtain t r where p: "p = (t, r)" by (cases p)
    from "1.IH" Some p have "wikilinks r (wikilink_matches r)" by blast
    moreover from Some p have "wikilink s t r" by (simp add: wikilink_at_Some)
    ultimately have "wikilinks s (t # wikilink_matches r)" by (rule link [rotated])
    with Some p show ?thesis by (simp add: wikilink_matches.simps)
  qed
qed

lemma wikilinks_unique: "wikilinks s ts \<Longrightarrow> ts = wikilink_matches s"
proof (induction rule: wikilinks.induct)
  case plain_end
  show ?case by (simp add: wikilink_matches.simps)
next
  case (link s t r ts)
  then have "wikilink_at s = Some (t, r)" by (simp add: wikilink_at_Some)
  with link show ?case by (simp add: wikilink_matches.simps)
next
  case (plain c cs ts)
  then have "wikilink_at (c # cs) = None" by (simp add: wikilink_at_None)
  with plain show ?case by (simp add: wikilink_matches.simps)
qed

lemma set_add_set: "set (set_add xs x) = insert x (set xs)"
  by (auto simp: set_add_def)

lemma set_add_distinct: "distinct xs \<Longrightarrow> distinct (set_add xs x)"
  by (simp add: set_add_def)

lemma collect_targets:
  "distinct acc \<Longrightarrow>
   set (foldl (\<lambda>targets m. let t = trim m in if t \<noteq> [] then set_add targets t else targets) acc ms) =
     set acc \<union> {trim m |m. m \<in> set ms \<and> trim m \<noteq> []} \<and>
   distinct (foldl (\<lambda>targets m. let t = trim m in if t \<noteq> [] then set_add targets t else targets) acc ms)"
proof (induction ms arbitrary: acc)
  case Nil
  then show ?case by simp
next
  case (Cons m ms)
  show ?case
  proof (cases "trim m = []")
    case True
    with Cons.IH [OF Cons.prems] show ?thesis by (auto simp: Let_def)
  next
    case False
    from Cons.prems have "distinct (set_add acc (trim m))" by (rule set_add_distinct)
    from Cons.IH [OF this] False show ?thesis by (auto simp: Let_def set_add_set)
  qed
qed

lemma wikilink_plainI: "c \<noteq> 91 \<Longrightarrow> \<not> (\<exists>t r. wikilink (c # cs) t r)"
  by (auto simp: wikilink_def)

text \<open>
  C6 as stated fails on four texts, each of one of the two forms the claim names:
  \<open>[[ ]]\<close>, whose title is blank (\<open>if (t) targets.add(t)\<close> skips the empty string it is
  trimmed to); \<open>[[p|q]]\<close>, whose title holds \<open>|\<close>; \<open>[[r]s]]\<close>, whose title holds \<open>]\<close>;
  and \<open>[[A#b\<close>, line feed, \<open>c]]\<close>, whose heading holds a line terminator. For none of
  them does \<open>extractLinks\<close> return the trimmed title.
\<close>

theorem extractLinks_misses_written_wikilinks:
  "written_wikilink (js ''[[ ]]'') (js '' '') \<and>
   trim (js '' '') \<notin> set (extractLinks (js ''[[ ]]'')) \<and>
   written_wikilink (js ''[[p|q]]'') (js ''p|q'') \<and>
   trim (js ''p|q'') \<notin> set (extractLinks (js ''[[p|q]]'')) \<and>
   written_wikilink (js ''[[r]s]]'') (js ''r]s'') \<and>
   trim (js ''r]s'') \<notin> set (extractLinks (js ''[[r]s]]'')) \<and>
   written_wikilink (js ''[[A#b'' @ 10 # js ''c]]'') (js ''A'') \<and>
   trim (js ''A'') \<notin> set (extractLinks (js ''[[A#b'' @ 10 # js ''c]]''))"
proof -
  have "written_wikilink (js ''[[A#b'' @ 10 # js ''c]]'') (js ''A'')"
    unfolding written_wikilink_def
    by (intro disjI2 exI [of _ "js ''b'' @ 10 # js ''c''"]) simp
  moreover have "extractLinks (js ''[[ ]]'') = []" "extractLinks (js ''[[p|q]]'') = []"
    "extractLinks (js ''[[r]s]]'') = []" "extractLinks (js ''[[A#b'' @ 10 # js ''c]]'') = []"
    by (simp_all add: parser_defs)
  ultimately show ?thesis by (simp add: written_wikilink_def)
qed

text \<open>The first of them in the reading of the amended claim: \<open>[[ ]]\<close> is one wikilink,
  and its title gives no entry.\<close>

theorem blank_title_is_dropped:
  "wikilinks (js ''[[ ]]'') [js '' ''] \<and>
   set (extractLinks (js ''[[ ]]'')) \<noteq> set (map trim [js '' ''])"
proof -
  have "wikilinks (js ''[[ ]]'') [js '' '']"
    by (rule link [OF _ plain_end]) (simp add: wikilink_def is_title_def)
  moreover have "extractLinks (js ''[[ ]]'') = []" by (simp add: parser_defs)
  ultimately show ?thesis by simp
qed

text \<open>
  C6, amended. A wikilink is written \<open>[[Title]]\<close> or \<open>[[Title#heading]]\<close>, where the
  title is a non-empty run of characters other than \<open>]\<close>, \<open>|\<close> and \<open>#\<close>, and the heading
  is a run of characters other than line terminators that ends at the first \<open>]]\<close>
  after the \<open>#\<close>. Every content can be read in exactly one way, from left to right, as
  plain characters and such wikilinks (a character is plain only where no wikilink
  starts, and the reading goes on after the \<open>]]\<close> of a wikilink), and \<open>extractLinks\<close>
  returns the trimmed titles of these wikilinks that are not empty, the heading
  discarded, each title once; a wikilink whose title is blank gives no entry.
  \<open>extractLinks\<close> is a function of the content alone, so two runs on the same content
  give the same set.
\<close>

theorem extractLinks_wikilink_titles:
  "(\<exists>ts. wikilinks txt ts) \<and>
   (\<forall>ts. wikilinks txt ts \<longrightarrow>
      set (extractLinks txt) = set (filter (\<lambda>t. t \<noteq> []) (map trim ts))) \<and>
   distinct (extractLinks txt)"
proof -
  have "wikilinks txt (wikilink_matches txt)" by (rule wikilinks_matches)
  moreover have "set (extractLinks txt) = set (filter (\<lambda>t. t \<noteq> []) (map trim ts))"
    if "wikilinks txt ts" for ts
    using collect_targets [of "[]" "wikilink_matches txt"] wikilinks_unique [OF that]
    by (auto simp: extractLinks_def)
  moreover have "distinct (extractLinks txt)"
    using collect_targets [of "[]" "wikilink_matches txt"] by (simp add: extractLinks_def)
  ultimately show ?thesis by blast
qed

theorem extractLinks_wikilink_titles_witness:
  "wikilinks (js ''[[B]] x[[ G#h]][[ ]][[B]]'') [js ''B'', js '' G'', js '' '', js ''B''] \<and>
   set (extractLinks (js ''[[B]] x[[ G#h]][[ ]][[B]]'')) = {js ''B'', js ''G''}"
proof -
  have w4: "wikilinks (js ''[[B]]'') [js ''B'']"
    by (rule link [OF _ plain_end]) (simp add: wikilink_def is_title_def)
  have w3: "wikilinks (js ''[[ ]][[B]]'') [js '' '', js ''B'']"
    by (rule link [OF _ w4]) (simp add: wikilink_def is_title_def)
  have "is_heading (js ''h'')"
    by (simp add: is_heading_Cons is_heading_Nil line_terminator_def)
  then have "wikilink (js ''[[ G#h]][[ ]][[B]]'') (js '' G'') (js ''[[ ]][[B]]'')"
    unfolding wikilink_def by (intro conjI disjI2 exI [of _ "js ''h''"]) (simp_all add: is_title_def)
  then have w2: "wikilinks (js ''[[ G#h]][[ ]][[B]]'') [js '' G'', js '' '', js ''B'']"
    using w3 by (rule link)
  have w1: "wikilinks (js '' x[[ G#h]][[ ]][[B]]'') [js '' G'', js '' '', js ''B'']"
    using w2 by (simp add: plain wikilink_plainI)
  have "wikilink (js ''[[B]] x[[ G#h]][[ ]][[B]]'') (js ''B'') (js '' x[[ G#h]][[ ]][[B]]'')"
    by (simp add: wikilink_def is_title_def)
  then have w0: "wikilinks (js ''[[B]] x[[ G#h]][[ ]][[B]]'') [js ''B'', js '' G'', js '' '', js ''B'']"
    using w1 by (rule link)
  from extractLinks_wikilink_titles [of "js ''[[B]] x[[ G#h]][[ ]][[B]]''"] w0
  have "set (extractLinks (js ''[[B]] x[[ G#h]][[ ]][[B]]'')) =
          set (filter (\<lambda>t. t \<noteq> []) (map trim [js ''B'', js '' G'', js '' '', js ''B'']))"
    by blast
  also have "\<dots> = {js ''B'', js ''G''}"
    by (auto simp: trim_def js_space_def line_terminator_def)
  finally show ?thesis using w0 by simp
qed

end
